theory Spec2Isabelle
  imports Complex_Main "HOL-Library.AList"
begin

section \<open>Data model\<close>

text \<open>
  The repository holds three variants of one class, \<open>SolanaWalletMonitor\<close>:
  \<^item> \<open>index.js\<close>: per-subscriber settings \<open>{ minAmount, blacklist }\<close>;
  \<^item> the first file of \<open>unnamed/part_000\<close> (lines 1-643): settings \<open>{ amount: [], blacklist }\<close>,
    a list of accepted fixed amounts;
  \<^item> the second file of \<open>unnamed/part_000\<close> (lines 643-1033): no settings, a hard-coded list
    \<open>fixedSolAmounts\<close>, and a cursor that is moved after each processed transaction.

  JavaScript numbers are modelled as exact reals; a read past the end of an array
  (\<open>undefined\<close>, which arithmetic turns into \<open>NaN\<close>) is \<open>None\<close>. Balances are lamports and
  hence integers. Chat ids are integers, addresses and transaction signatures are strings.
\<close>

type_synonym chat_id = int
type_synonym address = string

record signature_info =
  signature :: string
  blockTime :: int

datatype direction = Incoming | Outgoing

record transfer =
  tr_from :: address
  tr_to :: address
  tr_amount :: real
  tr_type :: direction

record tx_meta =
  preBalances :: "int list"
  postBalances :: "int list"

text \<open>
  \<open>accountKeys\<close> is \<open>None\<close> for a message object without that property (reading
  \<open>accountKeys.length\<close> then throws a TypeError, caught in \<open>parseSOLTransfers\<close>).
\<close>

record transaction =
  meta :: "tx_meta option"
  accountKeys :: "address list option"

section \<open>parseSOLTransfers\<close>

definition lamportsAt :: "int list \<Rightarrow> nat \<Rightarrow> int option" where
  "lamportsAt xs i = (if i < length xs then Some (xs ! i) else None)"

text \<open>\<open>(a[i] - b[i]) / 1e9\<close>; \<open>None\<close> is \<open>NaN\<close>.\<close>

definition solDelta :: "int list \<Rightarrow> int list \<Rightarrow> nat \<Rightarrow> real option" where
  "solDelta a b i =
     (case lamportsAt a i of
        None \<Rightarrow> None
      | Some x \<Rightarrow>
          (case lamportsAt b i of
             None \<Rightarrow> None
           | Some y \<Rightarrow> Some (real_of_int (x - y) / 1000000000)))"

text \<open>
  \<open>for (let i = 0; i < accountKeys.length; i++) if (accountKeys[i].toString() === targetWallet)
  { targetIndex = i; break; }\<close>; \<open>None\<close> is the initial \<open>-1\<close>.
\<close>

function findTargetIndex :: "address list \<Rightarrow> address \<Rightarrow> nat \<Rightarrow> nat option" where
  "findTargetIndex keys targetWallet i =
     (if i < length keys then
        (if keys ! i = targetWallet then Some i
         else findTargetIndex keys targetWallet (Suc i))
      else None)"
  by pat_completeness auto
termination
  by (relation "measure (\<lambda>(keys, w, i). length keys - i)") auto

text \<open>
  The test of the incoming branch:
  \<open>Math.abs(senderBalanceChange - balanceChange) < 0.001\<close> with
  \<open>senderBalanceChange = (preBalances[i] - postBalances[i]) / 1e9\<close>.
  A comparison with \<open>NaN\<close> is false.
\<close>

definition senderMatches :: "tx_meta \<Rightarrow> real \<Rightarrow> nat \<Rightarrow> bool" where
  "senderMatches m balanceChange i =
     (case solDelta (preBalances m) (postBalances m) i of
        None \<Rightarrow> False
      | Some senderBalanceChange \<Rightarrow> \<bar>senderBalanceChange - balanceChange\<bar> < 1 / 1000)"

text \<open>
  The test of the outgoing branch:
  \<open>receiverBalanceChange > 0 && Math.abs(receiverBalanceChange + balanceChange) < 0.001\<close> with
  \<open>receiverBalanceChange = (postBalances[i] - preBalances[i]) / 1e9\<close>.
\<close>

definition receiverMatches :: "tx_meta \<Rightarrow> real \<Rightarrow> nat \<Rightarrow> bool" where
  "receiverMatches m balanceChange i =
     (case solDelta (postBalances m) (preBalances m) i of
        None \<Rightarrow> False
      | Some receiverBalanceChange \<Rightarrow>
          receiverBalanceChange > 0 \<and> \<bar>receiverBalanceChange + balanceChange\<bar> < 1 / 1000)"

text \<open>
  Both search loops have the shape
  \<open>for (let i = 0; i < accountKeys.length; i++) if (i !== targetIndex) if (test) { push; break; }\<close>;
  the result is the index at which the loop pushes, if any.
\<close>

function findSender :: "tx_meta \<Rightarrow> address list \<Rightarrow> nat \<Rightarrow> real \<Rightarrow> nat \<Rightarrow> nat option" where
  "findSender m keys targetIndex balanceChange i =
     (if i < length keys then
        (if i \<noteq> targetIndex \<and> senderMatches m balanceChange i then Some i
         else findSender m keys targetIndex balanceChange (Suc i))
      else None)"
  by pat_completeness auto
termination
  by (relation "measure (\<lambda>(m, keys, t, c, i). length keys - i)") auto

function findReceiver :: "tx_meta \<Rightarrow> address list \<Rightarrow> nat \<Rightarrow> real \<Rightarrow> nat \<Rightarrow> nat option" where
  "findReceiver m keys targetIndex balanceChange i =
     (if i < length keys then
        (if i \<noteq> targetIndex \<and> receiverMatches m balanceChange i then Some i
         else findReceiver m keys targetIndex balanceChange (Suc i))
      else None)"
  by pat_completeness auto
termination
  by (relation "measure (\<lambda>(m, keys, t, c, i). length keys - i)") auto

text \<open>
  The body of \<open>parseSOLTransfers\<close> (the same text in all three variants). A missing \<open>meta\<close>
  or \<open>accountKeys\<close> throws inside the \<open>try\<close> and the \<open>catch\<close> returns the still empty list.
\<close>

definition parseSOLTransfers :: "transaction \<Rightarrow> address \<Rightarrow> transfer list" where
  "parseSOLTransfers tx targetWallet =
     (case meta tx of
        None \<Rightarrow> []
      | Some m \<Rightarrow>
     (case accountKeys tx of
        None \<Rightarrow> []
      | Some keys \<Rightarrow>
     (case findTargetIndex keys targetWallet 0 of
        None \<Rightarrow> []
      | Some targetIndex \<Rightarrow>
     (case solDelta (postBalances m) (preBalances m) targetIndex of
        None \<Rightarrow> []
      | Some balanceChange \<Rightarrow>
          if balanceChange > 0 then
            (case findSender m keys targetIndex balanceChange 0 of
               None \<Rightarrow> []
             | Some i \<Rightarrow>
                 [\<lparr>tr_from = keys ! i, tr_to = targetWallet,
                   tr_amount = balanceChange, tr_type = Incoming\<rparr>])
          else if balanceChange < 0 then
            (case findReceiver m keys targetIndex balanceChange 0 of
               None \<Rightarrow> []
             | Some i \<Rightarrow>
                 [\<lparr>tr_from = targetWallet, tr_to = keys ! i,
                   tr_amount = \<bar>balanceChange\<bar>, tr_type = Outgoing\<rparr>])
          else []))))"

text \<open>
  The counterparty of an event, as \<open>notifyAllUsers\<close> computes it for the alert text:
  \<open>fromTo = transfer.type === 'incoming' ? transfer.from : transfer.to\<close>.
\<close>

definition fromTo :: "transfer \<Rightarrow> address" where
  "fromTo t = (if tr_type t = Incoming then tr_from t else tr_to t)"

section \<open>State, environment and effects\<close>

text \<open>
  Filter settings: \<open>{ minAmount: 0, blacklist: [] }\<close> in \<open>index.js\<close>,
  \<open>{ amount: [], blacklist: [] }\<close> in the fixed-amount variant.
\<close>

record settings_base =
  blacklist :: "address list"

record settings = settings_base +
  minAmount :: real

record fixed_settings = settings_base +
  amount :: "real list"

text \<open>The object \<open>saveUserData\<close> serialises into \<open>user_data.json\<close>.\<close>

record 's persisted =
  p_userSettings :: "(chat_id \<times> 's) list"
  p_subscribedUsers :: "chat_id list"
  p_lastSignature :: "string option"

text \<open>
  What the outside world sees of a run, in order: a \<open>connection.getTransaction\<close> call, a
  \<open>bot.telegram.sendMessage\<close> call and a \<open>fs.writeFile\<close> call.
\<close>

datatype 's effect =
    GetTransaction string
  | SendMessage chat_id transfer signature_info
  | WriteFile "'s persisted"

text \<open>
  \<open>sendMessage\<close> resolves or throws; \<open>Failed code\<close> is a thrown error, \<open>code\<close> being
  \<open>error.response.error_code\<close> when the error has a response.
  \<open>getTransaction\<close> throws, resolves to \<open>null\<close> or resolves to a transaction.
\<close>

datatype send_result = Delivered | Failed "nat option"

datatype tx_response = RpcError | NotFound | Found transaction

text \<open>
  The collaborators of the class: the configured wallet (\<open>process.env.WALLET_ADDRESS\<close>, the empty
  string when unset), whether \<open>new PublicKey(address)\<close> succeeds, the wallet's signature list on
  the ledger, newest first (\<open>None\<close> when the RPC call throws), the transaction lookup and the
  Telegram send. \<open>fs.writeFile\<close> is taken to succeed.
\<close>

record env =
  monitoredWallet :: address
  validPublicKey :: "address \<Rightarrow> bool"
  ledger :: "signature_info list option"
  getTransaction :: "string \<Rightarrow> tx_response"
  sendMessage :: "chat_id \<Rightarrow> transfer \<Rightarrow> signature_info \<Rightarrow> send_result"

definition getSignaturesForAddress :: "env \<Rightarrow> nat \<Rightarrow> signature_info list option" where
  "getSignaturesForAddress e limit = map_option (take limit) (ledger e)"

text \<open>
  The fields of the class. \<open>userSettings\<close> is a JavaScript \<open>Map\<close> (an association list in
  insertion order), \<open>subscribedUsers\<close> a \<open>Set\<close> (a list without duplicates in insertion
  order). \<open>hearsListeners\<close> are the chats for which the \<open>set_min_amount\<close> action has registered
  a \<open>bot.hears\<close> listener, in registration order; \<open>effects\<close> is the log of effects so far.
\<close>

record 's monitor =
  userSettings :: "(chat_id \<times> 's) list"
  subscribedUsers :: "chat_id list"
  lastSignature :: "string option"
  hearsListeners :: "chat_id list"
  effects :: "'s effect list"

definition set_add :: "'a \<Rightarrow> 'a list \<Rightarrow> 'a list" where
  "set_add x xs = (if x \<in> set xs then xs else xs @ [x])"

definition set_delete :: "'a \<Rightarrow> 'a list \<Rightarrow> 'a list" where
  "set_delete x xs = removeAll x xs"

definition emit :: "'s effect \<Rightarrow> 's monitor \<Rightarrow> 's monitor" where
  "emit e st = st\<lparr>effects := effects st @ [e]\<rparr>"

text \<open>\<open>saveUserData\<close> builds the object \<open>data\<close> from the fields and writes it.\<close>

definition userData :: "'s monitor \<Rightarrow> 's persisted" where
  "userData st = \<lparr>p_userSettings = userSettings st,
                  p_subscribedUsers = subscribedUsers st,
                  p_lastSignature = lastSignature st\<rparr>"

definition saveUserData :: "'s monitor \<Rightarrow> 's monitor" where
  "saveUserData st = emit (WriteFile (userData st)) st"

definition isValidSolanaAddress :: "env \<Rightarrow> address \<Rightarrow> bool" where
  "isValidSolanaAddress e a = (validPublicKey e a \<and> length a \<ge> 32 \<and> length a \<le> 44)"

section \<open>notifyAllUsers\<close>

text \<open>
  The tail of the loop body, the same in \<open>index.js\<close> and in the fixed-amount variant: the
  \<open>sendMessage\<close> call and the \<open>catch\<close> block, which on error code 403 deletes the chat from
  \<open>subscribedUsers\<close> and \<open>userSettings\<close> and saves.
\<close>

definition deliver ::
  "env \<Rightarrow> transfer \<Rightarrow> signature_info \<Rightarrow> chat_id \<Rightarrow> 's monitor \<Rightarrow> 's monitor" where
  "deliver e t sg chatId st =
     (let st1 = emit (SendMessage chatId t sg) st in
      case sendMessage e chatId t sg of
        Delivered \<Rightarrow> st1
      | Failed code \<Rightarrow>
          if code = Some 403 then
            saveUserData (st1\<lparr>subscribedUsers := set_delete chatId (subscribedUsers st1),
                               userSettings := AList.delete chatId (userSettings st1)\<rparr>)
          else st1)"

text \<open>
  \<open>index.js\<close>, lines 432-465, one iteration:
  \<open>if (transfer.amount < settings.minAmount) continue;
  if (settings.blacklist.includes(transfer.from)) continue;\<close> then the send.
\<close>

definition getSettings :: "settings monitor \<Rightarrow> chat_id \<Rightarrow> settings" where
  "getSettings st chatId =
     (case map_of (userSettings st) chatId of
        Some s \<Rightarrow> s
      | None \<Rightarrow> \<lparr>blacklist = [], minAmount = 0\<rparr>)"

definition notifyUser ::
  "env \<Rightarrow> transfer \<Rightarrow> signature_info \<Rightarrow> chat_id \<Rightarrow> settings monitor \<Rightarrow> settings monitor" where
  "notifyUser e t sg chatId st =
     (let settings = getSettings st chatId in
      if tr_amount t < minAmount settings then st
      else if tr_from t \<in> set (blacklist settings) then st
      else deliver e t sg chatId st)"

text \<open>
  The loop runs over the live \<open>Set\<close>; only the chat of the current iteration is ever deleted, so
  it visits the members the set had when the loop began, in insertion order.
\<close>

definition notifyAllUsers ::
  "env \<Rightarrow> transfer \<Rightarrow> signature_info \<Rightarrow> settings monitor \<Rightarrow> settings monitor" where
  "notifyAllUsers e t sg st = fold (notifyUser e t sg) (subscribedUsers st) st"

text \<open>
  The fixed-amount variant, \<open>unnamed/part_000\<close> lines 541-575. Its first filter reads
  \<open>if (settings.amount.length = 0 && !settings.amount.includes(transfer.amount))\<close>.
  \<open>&&\<close> binds tighter than \<open>=\<close>: the right-hand side \<open>0 && ...\<close> is \<open>0\<close> (the second
  operand is not evaluated), the assignment sets the length of the array to \<open>0\<close>, which empties
  the array of the stored settings object, and the value of the condition is \<open>0\<close>.
\<close>

definition getFixedSettings :: "fixed_settings monitor \<Rightarrow> chat_id \<Rightarrow> fixed_settings" where
  "getFixedSettings st chatId =
     (case map_of (userSettings st) chatId of
        Some s \<Rightarrow> s
      | None \<Rightarrow> \<lparr>blacklist = [], amount = []\<rparr>)"

text \<open>
  \<open>settings.amount.length = n\<close> on the settings object of \<open>chatId\<close>, for \<open>n\<close> not above the
  length: the stored array is cut to its first \<open>n\<close> entries. When the chat has no stored
  settings the object is the fresh default and nothing stored changes.
\<close>

definition assignAmountLength ::
  "nat \<Rightarrow> chat_id \<Rightarrow> fixed_settings monitor \<Rightarrow> fixed_settings monitor" where
  "assignAmountLength n chatId st =
     st\<lparr>userSettings :=
          AList.map_entry chatId (\<lambda>s. s\<lparr>amount := take n (amount s)\<rparr>) (userSettings st)\<rparr>"

definition notifyUser_fixed ::
  "env \<Rightarrow> transfer \<Rightarrow> signature_info \<Rightarrow> chat_id \<Rightarrow> fixed_settings monitor
     \<Rightarrow> fixed_settings monitor" where
  "notifyUser_fixed e t sg chatId st =
     (let settings = getFixedSettings st chatId;
          assigned = (0::nat);
          st1 = assignAmountLength assigned chatId st
      in
      if assigned \<noteq> 0 then st1
      else if tr_from t \<in> set (blacklist settings) then st1
      else deliver e t sg chatId st1)"

definition notifyAllUsers_fixed ::
  "env \<Rightarrow> transfer \<Rightarrow> signature_info \<Rightarrow> fixed_settings monitor \<Rightarrow> fixed_settings monitor" where
  "notifyAllUsers_fixed e t sg st = fold (notifyUser_fixed e t sg) (subscribedUsers st) st"

text \<open>
  The hard-coded variant, \<open>unnamed/part_000\<close> lines 943-965: no filter, no settings; the
  \<open>catch\<close> block deletes from \<open>subscribedUsers\<close> only, and \<open>saveUserData\<close> writes the
  subscribers and the cursor only.
\<close>

definition userData_hard :: "unit monitor \<Rightarrow> unit persisted" where
  "userData_hard st = \<lparr>p_userSettings = [],
                       p_subscribedUsers = subscribedUsers st,
                       p_lastSignature = lastSignature st\<rparr>"

definition saveUserData_hard :: "unit monitor \<Rightarrow> unit monitor" where
  "saveUserData_hard st = emit (WriteFile (userData_hard st)) st"

definition notifyUser_hard ::
  "env \<Rightarrow> transfer \<Rightarrow> signature_info \<Rightarrow> chat_id \<Rightarrow> unit monitor \<Rightarrow> unit monitor" where
  "notifyUser_hard e t sg chatId st =
     (let st1 = emit (SendMessage chatId t sg) st in
      case sendMessage e chatId t sg of
        Delivered \<Rightarrow> st1
      | Failed code \<Rightarrow>
          if code = Some 403 then
            saveUserData_hard (st1\<lparr>subscribedUsers := set_delete chatId (subscribedUsers st1)\<rparr>)
          else st1)"

definition notifyAllUsers_hard ::
  "env \<Rightarrow> transfer \<Rightarrow> signature_info \<Rightarrow> unit monitor \<Rightarrow> unit monitor" where
  "notifyAllUsers_hard e t sg st = fold (notifyUser_hard e t sg) (subscribedUsers st) st"

section \<open>processTransaction\<close>

text \<open>
  \<open>index.js\<close> lines 311-334 (the same text in the fixed-amount variant); \<open>notify\<close> is the
  variant's \<open>notifyAllUsers\<close>. An RPC error is caught and logged.
\<close>

definition processTransaction ::
  "(env \<Rightarrow> transfer \<Rightarrow> signature_info \<Rightarrow> 's monitor \<Rightarrow> 's monitor)
     \<Rightarrow> env \<Rightarrow> signature_info \<Rightarrow> 's monitor \<Rightarrow> 's monitor" where
  "processTransaction notify e sg st =
     (let st1 = emit (GetTransaction (signature sg)) st in
      case getTransaction e (signature sg) of
        RpcError \<Rightarrow> st1
      | NotFound \<Rightarrow> st1
      | Found tx \<Rightarrow>
          (case meta tx of
             None \<Rightarrow> st1
           | Some m \<Rightarrow>
               fold (\<lambda>t. notify e t sg) (parseSOLTransfers tx (monitoredWallet e)) st1))"

text \<open>
  The hard-coded variant, lines 819-849: an event is announced only if
  \<open>this.fixedSolAmounts.includes(transfer.amount)\<close>, with \<open>fixedSolAmounts = [0.1, 0.15, 0.3]\<close>.
\<close>

definition fixedSolAmounts :: "real list" where
  "fixedSolAmounts = [1 / 10, 15 / 100, 3 / 10]"

definition processTransaction_hard :: "env \<Rightarrow> signature_info \<Rightarrow> unit monitor \<Rightarrow> unit monitor" where
  "processTransaction_hard e sg st =
     (let st1 = emit (GetTransaction (signature sg)) st in
      case getTransaction e (signature sg) of
        RpcError \<Rightarrow> st1
      | NotFound \<Rightarrow> st1
      | Found tx \<Rightarrow>
          (case meta tx of
             None \<Rightarrow> st1
           | Some m \<Rightarrow>
               fold (\<lambda>t s. if tr_amount t \<in> set fixedSolAmounts
                            then notifyAllUsers_hard e t sg s else s)
                 (parseSOLTransfers tx (monitoredWallet e)) st1))"

section \<open>startMonitoring and checkForNewTransactions\<close>

text \<open>
  \<open>for (const sig of signatures) { if (sig.signature === this.lastSignature) break;
  newSignatures.push(sig); }\<close>
\<close>

fun findNewSignatures ::
  "string option \<Rightarrow> signature_info list \<Rightarrow> signature_info list \<Rightarrow> signature_info list" where
  "findNewSignatures cursor [] newSignatures = newSignatures"
| "findNewSignatures cursor (sg # rest) newSignatures =
     (if Some (signature sg) = cursor then newSignatures
      else findNewSignatures cursor rest (newSignatures @ [sg]))"

text \<open>
  \<open>index.js\<close> lines 266-309 (the same text in the fixed-amount variant); \<open>process\<close> is the
  variant's \<open>processTransaction\<close>. \<open>new PublicKey\<close> and the RPC call may throw; the \<open>catch\<close>
  logs and returns.
\<close>

definition checkForNewTransactions ::
  "(env \<Rightarrow> signature_info \<Rightarrow> 's monitor \<Rightarrow> 's monitor) \<Rightarrow> env \<Rightarrow> 's monitor \<Rightarrow> 's monitor" where
  "checkForNewTransactions process e st =
     (if \<not> validPublicKey e (monitoredWallet e) then st
      else
        case getSignaturesForAddress e 10 of
          None \<Rightarrow> st
        | Some [] \<Rightarrow> st
        | Some (first # others) \<Rightarrow>
            let newSignatures = findNewSignatures (lastSignature st) (first # others) [] in
            if length newSignatures > 0 then
              fold (process e) (rev newSignatures)
                (saveUserData (st\<lparr>lastSignature := Some (signature first)\<rparr>))
            else st)"

text \<open>
  The hard-coded variant, lines 775-817: the cursor is assigned and saved inside the loop, after
  each \<open>processTransaction\<close>. One iteration is
  \<open>await this.processTransaction(signature); this.lastSignature = signature.signature;
  await this.saveUserData();\<close>
\<close>

definition processAndAdvance :: "env \<Rightarrow> signature_info \<Rightarrow> unit monitor \<Rightarrow> unit monitor" where
  "processAndAdvance e sg st =
     saveUserData_hard ((processTransaction_hard e sg st)\<lparr>lastSignature := Some (signature sg)\<rparr>)"

definition checkForNewTransactions_hard :: "env \<Rightarrow> unit monitor \<Rightarrow> unit monitor" where
  "checkForNewTransactions_hard e st =
     (if \<not> validPublicKey e (monitoredWallet e) then st
      else
        case getSignaturesForAddress e 10 of
          None \<Rightarrow> st
        | Some [] \<Rightarrow> st
        | Some (first # others) \<Rightarrow>
            let newSignatures = findNewSignatures (lastSignature st) (first # others) [] in
            if length newSignatures > 0 then
              fold (processAndAdvance e) (rev newSignatures) st
            else st)"

text \<open>
  \<open>index.js\<close> lines 229-264, up to the start of the timer. \<open>!this.lastSignature\<close> holds for
  \<open>null\<close> and for the empty string.
\<close>

definition startMonitoring :: "env \<Rightarrow> 's monitor \<Rightarrow> 's monitor" where
  "startMonitoring e st =
     (if monitoredWallet e = [] then st
      else if \<not> isValidSolanaAddress e (monitoredWallet e) then st
      else if lastSignature st = None \<or> lastSignature st = Some [] then
        (case getSignaturesForAddress e 1 of
           None \<Rightarrow> st
         | Some initialSignatures \<Rightarrow>
             saveUserData
               (st\<lparr>lastSignature :=
                     (case initialSignatures of
                        [] \<Rightarrow> None
                      | first # others \<Rightarrow> Some (signature first))\<rparr>))
      else st)"

text \<open>One poll cycle of \<open>index.js\<close> and of the fixed-amount variant.\<close>

definition pollCycle :: "env \<Rightarrow> settings monitor \<Rightarrow> settings monitor" where
  "pollCycle = checkForNewTransactions (processTransaction notifyAllUsers)"

definition pollCycle_fixed :: "env \<Rightarrow> fixed_settings monitor \<Rightarrow> fixed_settings monitor" where
  "pollCycle_fixed = checkForNewTransactions (processTransaction notifyAllUsers_fixed)"

section \<open>Command handlers of \<open>index.js\<close>\<close>

text \<open>\<open>bot.start\<close>, lines 61-82, and the \<open>unsubscribe\<close> command, lines 106-113.\<close>

definition start_command :: "chat_id \<Rightarrow> 's monitor \<Rightarrow> 's monitor" where
  "start_command chatId st =
     saveUserData (st\<lparr>subscribedUsers := set_add chatId (subscribedUsers st)\<rparr>)"

definition unsubscribe_command :: "chat_id \<Rightarrow> 's monitor \<Rightarrow> 's monitor" where
  "unsubscribe_command chatId st =
     saveUserData (st\<lparr>subscribedUsers := set_delete chatId (subscribedUsers st),
                       userSettings := AList.delete chatId (userSettings st)\<rparr>)"

text \<open>
  The \<open>set_min_amount\<close> action, lines 116-131: it registers a \<open>bot.hears\<close> listener for
  numeric text, which is never removed. The body of that listener, for the chat \<open>ctxChat\<close> that
  pressed the button and a message from \<open>msgChat\<close>:
\<close>

definition set_min_amount_action :: "chat_id \<Rightarrow> 's monitor \<Rightarrow> 's monitor" where
  "set_min_amount_action chatId st = st\<lparr>hearsListeners := hearsListeners st @ [chatId]\<rparr>"

definition min_amount_listener ::
  "chat_id \<Rightarrow> chat_id \<Rightarrow> real \<Rightarrow> settings monitor \<Rightarrow> settings monitor" where
  "min_amount_listener ctxChat msgChat newAmount st =
     (if msgChat = ctxChat then
        (let settings = getSettings st ctxChat in
         saveUserData
           (st\<lparr>userSettings :=
                 AList.update ctxChat (settings\<lparr>minAmount := newAmount\<rparr>) (userSettings st)\<rparr>))
      else st)"

text \<open>
  A numeric text message runs the first registered listener: all of them have the same trigger,
  and a listener does not pass the message on.
\<close>

definition hears_number :: "chat_id \<Rightarrow> real \<Rightarrow> settings monitor \<Rightarrow> settings monitor" where
  "hears_number msgChat newAmount st =
     (case hearsListeners st of
        [] \<Rightarrow> st
      | ctxChat # others \<Rightarrow> min_amount_listener ctxChat msgChat newAmount st)"

text \<open>The two blacklist listeners, lines 149-169 and 172-190.\<close>

definition hears_address :: "env \<Rightarrow> chat_id \<Rightarrow> address \<Rightarrow> settings monitor \<Rightarrow> settings monitor" where
  "hears_address e chatId a st =
     (if chatId \<notin> set (subscribedUsers st) then st
      else if isValidSolanaAddress e a then
        (let settings = getSettings st chatId in
         if a \<notin> set (blacklist settings) then
           saveUserData
             (st\<lparr>userSettings :=
                   AList.update chatId (settings\<lparr>blacklist := blacklist settings @ [a]\<rparr>)
                     (userSettings st)\<rparr>)
         else st)
      else st)"

definition hears_remove :: "chat_id \<Rightarrow> nat \<Rightarrow> settings monitor \<Rightarrow> settings monitor" where
  "hears_remove chatId n st =
     (if chatId \<notin> set (subscribedUsers st) then st
      else
        (let index = int n - 1;
             settings = getSettings st chatId
         in
         if index \<ge> 0 \<and> index < int (length (blacklist settings)) then
           saveUserData
             (st\<lparr>userSettings :=
                   AList.update chatId
                     (settings\<lparr>blacklist :=
                        take (nat index) (blacklist settings) @
                        drop (Suc (nat index)) (blacklist settings)\<rparr>)
                     (userSettings st)\<rparr>)
         else st))"

text \<open>
  The steps that change the state of the \<open>index.js\<close> monitor: the updates Telegram delivers and
  the dispatch of one transfer.
\<close>

datatype update =
    StartCommand chat_id
  | UnsubscribeCommand chat_id
  | SetMinAmountAction chat_id
  | NumberText chat_id real
  | AddressText chat_id address
  | RemoveText chat_id nat
  | Dispatch transfer signature_info

fun handleUpdate :: "env \<Rightarrow> update \<Rightarrow> settings monitor \<Rightarrow> settings monitor" where
  "handleUpdate e (StartCommand c) st = start_command c st"
| "handleUpdate e (UnsubscribeCommand c) st = unsubscribe_command c st"
| "handleUpdate e (SetMinAmountAction c) st = set_min_amount_action c st"
| "handleUpdate e (NumberText c x) st = hears_number c x st"
| "handleUpdate e (AddressText c a) st = hears_address e c a st"
| "handleUpdate e (RemoveText c n) st = hears_remove c n st"
| "handleUpdate e (Dispatch t sg) st = notifyAllUsers e t sg st"

definition handleUpdates :: "env \<Rightarrow> update list \<Rightarrow> settings monitor \<Rightarrow> settings monitor" where
  "handleUpdates e us st = fold (handleUpdate e) us st"

text \<open>The state the constructor leaves.\<close>

definition initial :: "'s monitor" where
  "initial = \<lparr>userSettings = [], subscribedUsers = [], lastSignature = None,
              hearsListeners = [], effects = []\<rparr>"

section \<open>Notions used in the statements\<close>

text \<open>The chats messaged, the signatures looked up and the snapshots written, in order.\<close>

fun sentTo :: "'s effect list \<Rightarrow> chat_id list" where
  "sentTo [] = []"
| "sentTo (SendMessage c t sg # es) = c # sentTo es"
| "sentTo (GetTransaction s # es) = sentTo es"
| "sentTo (WriteFile d # es) = sentTo es"

fun fetched :: "'s effect list \<Rightarrow> string list" where
  "fetched [] = []"
| "fetched (GetTransaction s # es) = s # fetched es"
| "fetched (SendMessage c t sg # es) = fetched es"
| "fetched (WriteFile d # es) = fetched es"

fun written :: "'s effect list \<Rightarrow> 's persisted list" where
  "written [] = []"
| "written (WriteFile d # es) = d # written es"
| "written (GetTransaction s # es) = written es"
| "written (SendMessage c t sg # es) = written es"

text \<open>The effects of a step: what \<open>st'\<close> has logged beyond \<open>st\<close>.\<close>

definition since :: "'s monitor \<Rightarrow> 's monitor \<Rightarrow> 's effect list" where
  "since st st' = drop (length (effects st)) (effects st')"

text \<open>
  The poll diff in the words of the specification: scan the newest-first list, collect ids
  until the cursor id is found or the list is exhausted, reverse the collected prefix.
\<close>

definition pollDiff_spec :: "string \<Rightarrow> signature_info list \<Rightarrow> signature_info list" where
  "pollDiff_spec cursor ids = rev (takeWhile (\<lambda>sg. signature sg \<noteq> cursor) ids)"

text \<open>
  A log keeps the cursor behind the processing when each written snapshot holds either the
  cursor \<open>c0\<close> the cycle began with or a signature whose lookup is already in the log
  (\<open>seen\<close> collects them).
\<close>

fun cursorBehind :: "string option \<Rightarrow> string list \<Rightarrow> 's effect list \<Rightarrow> bool" where
  "cursorBehind c0 seen [] = True"
| "cursorBehind c0 seen (GetTransaction s # es) = cursorBehind c0 (s # seen) es"
| "cursorBehind c0 seen (SendMessage c t sg # es) = cursorBehind c0 seen es"
| "cursorBehind c0 seen (WriteFile d # es) =
     ((p_lastSignature d = c0 \<or> p_lastSignature d \<in> Some ` set seen) \<and> cursorBehind c0 seen es)"

text \<open>
  Effects are quiet for a cursor when they look up no transaction and every snapshot written
  holds that cursor; a step from \<open>st\<close> to \<open>st'\<close> keeps the cursor when it leaves
  \<open>lastSignature\<close> alone and only adds quiet effects to the log.
\<close>

definition quiet :: "string option \<Rightarrow> 's effect list \<Rightarrow> bool" where
  "quiet cursor es = (fetched es = [] \<and> list_all (\<lambda>d. p_lastSignature d = cursor) (written es))"

definition keepsCursor :: "'s monitor \<Rightarrow> 's monitor \<Rightarrow> bool" where
  "keepsCursor st st' =
     (lastSignature st' = lastSignature st \<and>
      take (length (effects st)) (effects st') = effects st \<and>
      quiet (lastSignature st) (since st st'))"

text \<open>
  The two \<open>continue\<close> tests of \<open>index.js\<close> both fail for a chat; the one effective test of the
  fixed-amount variant fails; the send to a chat fails with error code 403.
\<close>

definition passesFilters :: "transfer \<Rightarrow> settings monitor \<Rightarrow> chat_id \<Rightarrow> bool" where
  "passesFilters t st c =
     (\<not> tr_amount t < minAmount (getSettings st c) \<and> tr_from t \<notin> set (blacklist (getSettings st c)))"

definition passesFilters_fixed :: "transfer \<Rightarrow> fixed_settings monitor \<Rightarrow> chat_id \<Rightarrow> bool" where
  "passesFilters_fixed t st c = (tr_from t \<notin> set (blacklist (getFixedSettings st c)))"

definition blocked :: "env \<Rightarrow> transfer \<Rightarrow> signature_info \<Rightarrow> chat_id \<Rightarrow> bool" where
  "blocked e t sg c = (sendMessage e c t sg = Failed (Some 403))"

text \<open>
  A chat is pruned by the dispatch of \<open>t\<close> when the send is attempted and fails with 403.
\<close>

definition pruned :: "env \<Rightarrow> transfer \<Rightarrow> signature_info \<Rightarrow> settings monitor \<Rightarrow> chat_id \<Rightarrow> bool" where
  "pruned e t sg st c = (passesFilters t st c \<and> blocked e t sg c)"

definition pruned_fixed ::
  "env \<Rightarrow> transfer \<Rightarrow> signature_info \<Rightarrow> fixed_settings monitor \<Rightarrow> chat_id \<Rightarrow> bool" where
  "pruned_fixed e t sg st c = (passesFilters_fixed t st c \<and> blocked e t sg c)"

text \<open>Every key of the settings map is a subscriber.\<close>

definition settingsWithinSubscribers :: "'s monitor \<Rightarrow> bool" where
  "settingsWithinSubscribers st = (set (map fst (userSettings st)) \<subseteq> set (subscribedUsers st))"

section \<open>Inputs used in witnesses and counterexamples\<close>

text \<open>
  A dust transfer: \<open>A\<close> pays the fee of 5000 lamports and receives 300000 from \<open>B\<close>, the
  monitored wallet \<open>W\<close> receives 500000 from \<open>B\<close>.
\<close>

definition dustTx :: transaction where
  "dustTx = \<lparr>meta = Some \<lparr>preBalances = [1000000, 5000000, 0],
                            postBalances = [1295000, 4200000, 500000]\<rparr>,
             accountKeys = Some [''A'', ''B'', ''W'']\<rparr>"

text \<open>The wallet receives 0.50 SOL; the sender loses 0.502 SOL, respectively 0.5005 SOL.\<close>

definition farTx :: transaction where
  "farTx = \<lparr>meta = Some \<lparr>preBalances = [502000000, 0], postBalances = [0, 500000000]\<rparr>,
            accountKeys = Some [''A'', ''W'']\<rparr>"

definition nearTx :: transaction where
  "nearTx = \<lparr>meta = Some \<lparr>preBalances = [500500000, 0], postBalances = [0, 500000000]\<rparr>,
             accountKeys = Some [''A'', ''W'']\<rparr>"

text \<open>
  A wallet address of 32 characters, signature records, and an environment in which every
  address is a valid key, the ledger lists \<open>ids\<close>, no transaction is found and every send is
  delivered.
\<close>

definition wallet :: address where
  "wallet = ''11111111111111111111111111111111''"

definition sig_of :: "string \<Rightarrow> signature_info" where
  "sig_of s = \<lparr>signature = s, blockTime = 0\<rparr>"

definition quietEnv :: "signature_info list \<Rightarrow> env" where
  "quietEnv ids =
     \<lparr>monitoredWallet = wallet, validPublicKey = (\<lambda>a. True), ledger = Some ids,
      getTransaction = (\<lambda>s. NotFound), sendMessage = (\<lambda>c t sg. Delivered)\<rparr>"

text \<open>The same environment, except that chat 2 has blocked the bot.\<close>

definition blockedEnv :: env where
  "blockedEnv =
     \<lparr>monitoredWallet = wallet, validPublicKey = (\<lambda>a. True), ledger = Some [],
      getTransaction = (\<lambda>s. NotFound),
      sendMessage = (\<lambda>c t sg. if c = 2 then Failed (Some 403) else Delivered)\<rparr>"

text \<open>An incoming transfer of 0.5 SOL from \<open>A\<close> and an outgoing transfer of 1 SOL to \<open>B\<close>.\<close>

definition halfIn :: transfer where
  "halfIn = \<lparr>tr_from = ''A'', tr_to = wallet, tr_amount = 1 / 2, tr_type = Incoming\<rparr>"

definition oneOut :: transfer where
  "oneOut = \<lparr>tr_from = wallet, tr_to = ''B'', tr_amount = 1, tr_type = Outgoing\<rparr>"

text \<open>
  One subscriber with an empty accepted-amount list; one subscriber who has blacklisted \<open>B\<close>;
  three subscribers, two of them with settings.
\<close>

definition emptyFixed :: "fixed_settings monitor" where
  "emptyFixed =
     initial\<lparr>subscribedUsers := [1], userSettings := [(1, \<lparr>blacklist = [], amount = []\<rparr>)]\<rparr>"

definition blacklistB :: "settings monitor" where
  "blacklistB =
     initial\<lparr>subscribedUsers := [1],
             userSettings := [(1, \<lparr>blacklist = [''B''], minAmount = 0\<rparr>)]\<rparr>"

definition threeUsers :: "settings monitor" where
  "threeUsers =
     initial\<lparr>subscribedUsers := [1, 2, 3],
             userSettings := [(1, \<lparr>blacklist = [], minAmount = 1 / 10\<rparr>),
                              (2, \<lparr>blacklist = [''B''], minAmount = 0\<rparr>)]\<rparr>"

definition threeUsers_fixed :: "fixed_settings monitor" where
  "threeUsers_fixed =
     initial\<lparr>subscribedUsers := [1, 2, 3],
             userSettings := [(1, \<lparr>blacklist = [], amount = [1 / 10]\<rparr>),
                              (2, \<lparr>blacklist = [''B''], amount = []\<rparr>)]\<rparr>"

text \<open>
  Listings, newest first; the state with cursor \<open>S3\<close>; and a subscriber who starts, presses
  the minimum-amount button, unsubscribes and then sends a number.
\<close>

definition s543 :: "signature_info list" where
  "s543 = [sig_of ''S5'', sig_of ''S4'', sig_of ''S3'']"

definition s321 :: "signature_info list" where
  "s321 = [sig_of ''S3'', sig_of ''S2'', sig_of ''S1'']"

definition atS3 :: "'s monitor" where
  "atS3 = initial\<lparr>lastSignature := Some ''S3''\<rparr>"

definition afterUnsubscribe :: "update list" where
  "afterUnsubscribe =
     [StartCommand 1, SetMinAmountAction 1, UnsubscribeCommand 1, NumberText 1 (1 / 2)]"

section \<open>Extraction\<close>

declare findTargetIndex.simps [simp del] findSender.simps [simp del] findReceiver.simps [simp del]

lemmas parse_eval = parseSOLTransfers_def findTargetIndex.simps findSender.simps findReceiver.simps
  solDelta_def lamportsAt_def senderMatches_def receiverMatches_def

lemma findTargetIndex_Some:
  "findTargetIndex keys w i = Some t \<Longrightarrow> i \<le> t \<and> t < length keys \<and> keys ! t = w"
proof (induction keys w i rule: findTargetIndex.induct)
  case (1 keys w i)
  then show ?case
    by (subst (asm) (2) findTargetIndex.simps) (auto split: if_splits dest: Suc_leD)
qed

lemma findSender_Some:
  "findSender m keys t c i = Some j \<Longrightarrow>
     i \<le> j \<and> j < length keys \<and> j \<noteq> t \<and> senderMatches m c j \<and>
     (\<forall>k. i \<le> k \<and> k < j \<longrightarrow> k = t \<or> \<not> senderMatches m c k)"
proof (induction m keys t c i rule: findSender.induct)
  case (1 m keys t c i)
  show ?case
  proof (cases "i < length keys \<and> \<not> (i \<noteq> t \<and> senderMatches m c i)")
    case True
    then have "findSender m keys t c (Suc i) = Some j"
      using "1.prems" by (subst (asm) findSender.simps) (auto split: if_splits)
    then have ih: "Suc i \<le> j \<and> j < length keys \<and> j \<noteq> t \<and> senderMatches m c j \<and>
        (\<forall>k. Suc i \<le> k \<and> k < j \<longrightarrow> k = t \<or> \<not> senderMatches m c k)"
      using "1.IH" True by blast
    show ?thesis
    proof (intro conjI allI impI)
      fix k assume k: "i \<le> k \<and> k < j"
      show "k = t \<or> \<not> senderMatches m c k"
      proof (cases "k = i")
        case True
        then show ?thesis using \<open>i < length keys \<and> \<not> (i \<noteq> t \<and> senderMatches m c i)\<close> by auto
      next
        case False
        then have "Suc i \<le> k" using k by simp
        then show ?thesis using ih k by blast
      qed
    qed (use ih in auto)
  next
    case False
    then have "j = i \<and> i < length keys \<and> i \<noteq> t \<and> senderMatches m c i"
      using "1.prems" by (subst (asm) findSender.simps) (auto split: if_splits)
    then show ?thesis by auto
  qed
qed

lemma findSender_None:
  "findSender m keys t c i = None \<Longrightarrow> i \<le> k \<Longrightarrow> k < length keys \<Longrightarrow> k = t \<or> \<not> senderMatches m c k"
proof (induction m keys t c i rule: findSender.induct)
  case (1 m keys t c i)
  from "1.prems" have il: "i < length keys" by simp
  from "1.prems"(1) il have a: "\<not> (i \<noteq> t \<and> senderMatches m c i)" and b: "findSender m keys t c (Suc i) = None"
    by (subst (asm) findSender.simps, auto split: if_splits)+
  show ?case
  proof (cases "k = i")
    case True then show ?thesis using a by auto
  next
    case False
    then have "Suc i \<le> k" using "1.prems" by simp
    then show ?thesis using "1.IH" il a b "1.prems" by blast
  qed
qed

lemma findReceiver_Some:
  "findReceiver m keys t c i = Some j \<Longrightarrow> j < length keys \<and> j \<noteq> t \<and> receiverMatches m c j"
proof (induction m keys t c i rule: findReceiver.induct)
  case (1 m keys t c i)
  from "1.prems" have "i < length keys"
    by (subst (asm) findReceiver.simps) (auto split: if_splits)
  show ?case
  proof (cases "i \<noteq> t \<and> receiverMatches m c i")
    case True
    with "1.prems" \<open>i < length keys\<close> show ?thesis
      by (subst (asm) findReceiver.simps) auto
  next
    case False
    with "1.prems" \<open>i < length keys\<close> have "findReceiver m keys t c (Suc i) = Some j"
      by (subst (asm) findReceiver.simps) auto
    with "1.IH" \<open>i < length keys\<close> False show ?thesis by blast
  qed
qed

text \<open>
  C10. For every transaction, \<open>parseSOLTransfers\<close> returns at most one event; a returned event
  has a strictly positive amount, and its counterparty is the account key at an index other than
  the index found for the monitored wallet.
\<close>

theorem parseSOLTransfers_at_most_one:
  "length (parseSOLTransfers tx w) \<le> 1 \<and>
   (\<forall>t \<in> set (parseSOLTransfers tx w).
      tr_amount t > 0 \<and>
      (\<exists>keys targetIndex i.
         accountKeys tx = Some keys \<and> findTargetIndex keys w 0 = Some targetIndex \<and>
         i < length keys \<and> i \<noteq> targetIndex \<and> fromTo t = keys ! i))"
proof -
  have len: "length (parseSOLTransfers tx w) \<le> 1"
    by (simp add: parseSOLTransfers_def split: option.splits)
  have ev: "tr_amount t > 0 \<and>
      (\<exists>keys targetIndex i.
         accountKeys tx = Some keys \<and> findTargetIndex keys w 0 = Some targetIndex \<and>
         i < length keys \<and> i \<noteq> targetIndex \<and> fromTo t = keys ! i)"
    if mem: "t \<in> set (parseSOLTransfers tx w)" for t
  proof -
    obtain m where m: "meta tx = Some m"
      using mem by (cases "meta tx") (auto simp: parseSOLTransfers_def)
    obtain keys where k: "accountKeys tx = Some keys"
      using mem m by (cases "accountKeys tx") (auto simp: parseSOLTransfers_def)
    obtain ti where ti: "findTargetIndex keys w 0 = Some ti"
      using mem m k by (cases "findTargetIndex keys w 0") (auto simp: parseSOLTransfers_def)
    obtain ch where ch: "solDelta (postBalances m) (preBalances m) ti = Some ch"
      using mem m k ti
      by (cases "solDelta (postBalances m) (preBalances m) ti") (auto simp: parseSOLTransfers_def)
    consider (inc) "ch > 0" | (out) "ch < 0" | (zero) "ch = 0" by linarith
    then show ?thesis
    proof cases
      case inc
      then obtain i where i: "findSender m keys ti ch 0 = Some i"
        and t: "t = \<lparr>tr_from = keys ! i, tr_to = w, tr_amount = ch, tr_type = Incoming\<rparr>"
        using mem m k ti ch
        by (cases "findSender m keys ti ch 0") (auto simp: parseSOLTransfers_def)
      from findSender_Some [OF i] have "i < length keys" "i \<noteq> ti" by auto
      with k ti t inc show ?thesis by (auto simp: fromTo_def)
    next
      case out
      then obtain i where i: "findReceiver m keys ti ch 0 = Some i"
        and t: "t = \<lparr>tr_from = w, tr_to = keys ! i, tr_amount = \<bar>ch\<bar>, tr_type = Outgoing\<rparr>"
        using mem m k ti ch
        by (cases "findReceiver m keys ti ch 0") (auto simp: parseSOLTransfers_def)
      from findReceiver_Some [OF i] have "i < length keys" "i \<noteq> ti" by auto
      with k ti t out show ?thesis by (auto simp: fromTo_def)
    next
      case zero
      with mem m k ti ch show ?thesis by (simp add: parseSOLTransfers_def)
    qed
  qed
  from len ev show ?thesis by blast
qed

theorem parseSOLTransfers_at_most_one_witness:
  "length (parseSOLTransfers dustTx ''W'') \<le> 1 \<and>
   (\<exists>t. parseSOLTransfers dustTx ''W'' = [t] \<and>
      tr_amount t > 0 \<and>
      (\<exists>keys targetIndex i.
         accountKeys dustTx = Some keys \<and> findTargetIndex keys ''W'' 0 = Some targetIndex \<and>
         i < length keys \<and> i \<noteq> targetIndex \<and> fromTo t = keys ! i))"
proof -
  have "\<exists>t. parseSOLTransfers dustTx ''W'' = [t]"
    by (simp add: dustTx_def parse_eval)
  then obtain t where t: "parseSOLTransfers dustTx ''W'' = [t]" ..
  then have "t \<in> set (parseSOLTransfers dustTx ''W'')" by simp
  with parseSOLTransfers_at_most_one [of dustTx "''W''"] t show ?thesis
    by blast
qed

text \<open>
  The sender test is met by an account whose balance did not fall as soon as the wallet's gain is
  below the tolerance; from a gain of 0.001 SOL on, a matching account has lost lamports. A zero
  delta yields no event.
\<close>

lemma senderMatches_decreased:
  assumes "senderMatches m balanceChange i" and "balanceChange \<ge> 1 / 1000"
  shows "i < length (preBalances m) \<and> i < length (postBalances m) \<and>
         postBalances m ! i < preBalances m ! i"
proof -
  from assms(1) obtain s where
    s: "solDelta (preBalances m) (postBalances m) i = Some s" and near: "\<bar>s - balanceChange\<bar> < 1 / 1000"
    by (auto simp: senderMatches_def split: option.splits)
  from s have len: "i < length (preBalances m)" "i < length (postBalances m)"
    and sv: "s = real_of_int (preBalances m ! i - postBalances m ! i) / 1000000000"
    by (auto simp: solDelta_def lamportsAt_def split: if_splits)
  from near assms(2) have "s > 0" by linarith
  with sv have "real_of_int (preBalances m ! i - postBalances m ! i) > 0"
    by (simp add: field_simps)
  with len show ?thesis by simp
qed

lemma zero_delta_no_event:
  assumes "meta tx = Some m" and "accountKeys tx = Some keys"
    and "findTargetIndex keys w 0 = Some t"
    and "solDelta (postBalances m) (preBalances m) t = Some 0"
  shows "parseSOLTransfers tx w = []"
  using assms by (simp add: parseSOLTransfers_def)

text \<open>
  C6. Extraction on \<open>dustTx\<close>: the wallet \<open>W\<close> gains 0.0005 SOL, and the event names \<open>A\<close> as
  the sender, whose balance rose by 295000 lamports, although \<open>B\<close>, whose balance fell by
  0.0008 SOL, is within the tolerance too. The outgoing branch tests the sign of the receiver's
  change (\<open>receiverBalanceChange > 0\<close>); the incoming branch has no such test.
\<close>

theorem incoming_sender_balance_rose:
  "parseSOLTransfers dustTx ''W'' =
     [\<lparr>tr_from = ''A'', tr_to = ''W'', tr_amount = 1 / 2000, tr_type = Incoming\<rparr>]"
  by (simp add: dustTx_def parse_eval)

text \<open>
  C7, as stated, fails: with the wallet's delta +0.50 and one counterparty's delta -0.502 the
  difference 0.002 is not below the tolerance 0.001, and no event is returned.
\<close>

theorem tolerance_scenario_counterexample:
  "parseSOLTransfers farTx ''W'' = []"
  by (simp add: farTx_def parse_eval)

lemma senderMatches_lamports:
  "i < length (preBalances m) \<Longrightarrow> i < length (postBalances m) \<Longrightarrow>
   senderMatches m (1 / 2) i =
     (499000000 < preBalances m ! i - postBalances m ! i \<and>
      preBalances m ! i - postBalances m ! i < 501000000)"
proof -
  assume a: "i < length (preBalances m)" "i < length (postBalances m)"
  define x where "x = preBalances m ! i - postBalances m ! i"
  have "(\<bar>real_of_int x / 1000000000 - 1 / 2\<bar> < 1 / 1000) = (499000000 < x \<and> x < 501000000)"
  proof -
    have "(\<bar>real_of_int x / 1000000000 - 1 / 2\<bar> < 1 / 1000) =
          (499000000 < real_of_int x \<and> real_of_int x < 501000000)"
      by (auto simp: abs_less_iff field_simps)
    also have "\<dots> = (499000000 < x \<and> x < 501000000)"
      by linarith
    finally show ?thesis .
  qed
  with a show ?thesis
    by (simp add: senderMatches_def solDelta_def lamportsAt_def x_def)
qed

text \<open>
  C7, amended. The wallet's delta is +0.50 SOL and one counterparty \<open>c\<close> loses \<open>d\<close> lamports,
  every other account being unchanged: exactly one incoming event with amount 0.50, from \<open>c\<close>, is
  returned if \<open>d\<close> differs from 0.50 SOL by less than 0.001 SOL, and no event otherwise.
\<close>

theorem tolerance_window:
  assumes m: "meta tx = Some m" and k: "accountKeys tx = Some keys"
    and t: "findTargetIndex keys w 0 = Some t"
    and lpre: "length (preBalances m) = length keys"
    and lpost: "length (postBalances m) = length keys"
    and half: "postBalances m ! t - preBalances m ! t = 500000000"
    and c: "c < length keys" "c \<noteq> t"
    and d: "preBalances m ! c - postBalances m ! c = d"
    and rest: "\<forall>i < length keys. i \<noteq> t \<longrightarrow> i \<noteq> c \<longrightarrow> preBalances m ! i = postBalances m ! i"
  shows "parseSOLTransfers tx w =
    (if 499000000 < d \<and> d < 501000000
     then [\<lparr>tr_from = keys ! c, tr_to = w, tr_amount = 1 / 2, tr_type = Incoming\<rparr>]
     else [])"
proof -
  from findTargetIndex_Some [OF t] have tl: "t < length keys" by simp
  have ch: "solDelta (postBalances m) (preBalances m) t = Some (1 / 2)"
    using tl lpre lpost half by (simp add: solDelta_def lamportsAt_def)
  have match: "senderMatches m (1 / 2) i = (i = c \<and> 499000000 < d \<and> d < 501000000)"
    if "i < length keys" "i \<noteq> t" for i
  proof (cases "i = c")
    case True
    with that lpre lpost d show ?thesis by (simp add: senderMatches_lamports)
  next
    case False
    with that rest have "preBalances m ! i = postBalances m ! i" by blast
    with that lpre lpost False show ?thesis by (simp add: senderMatches_lamports)
  qed
  have parse: "parseSOLTransfers tx w =
      (case findSender m keys t (1 / 2) 0 of
         None \<Rightarrow> []
       | Some i \<Rightarrow> [\<lparr>tr_from = keys ! i, tr_to = w, tr_amount = 1 / 2, tr_type = Incoming\<rparr>])"
    using m k t ch by (simp add: parseSOLTransfers_def)
  show ?thesis
  proof (cases "findSender m keys t (1 / 2) 0")
    case None
    from findSender_None [OF None, of c] c have "\<not> senderMatches m (1 / 2) c" by simp
    with match [of c] c have "\<not> (499000000 < d \<and> d < 501000000)" by simp
    with parse None show ?thesis by simp
  next
    case (Some j)
    from findSender_Some [OF Some] have j: "j < length keys" "j \<noteq> t" "senderMatches m (1 / 2) j"
      by auto
    with match [of j] have "j = c" "499000000 < d \<and> d < 501000000" by auto
    with parse Some show ?thesis by simp
  qed
qed

theorem tolerance_window_witness:
  "parseSOLTransfers nearTx ''W'' =
     [\<lparr>tr_from = ''A'', tr_to = ''W'', tr_amount = 1 / 2, tr_type = Incoming\<rparr>]"
  using tolerance_window [of nearTx "\<lparr>preBalances = [500500000, 0], postBalances = [0, 500000000]\<rparr>"
      "[''A'', ''W'']" "''W''" 1 0 500500000]
  by (simp add: nearTx_def findTargetIndex.simps)

section \<open>Dispatch\<close>

lemmas notify_eval = notifyAllUsers_def notifyUser_def notifyAllUsers_fixed_def notifyUser_fixed_def
  assignAmountLength_def deliver_def emit_def saveUserData_def userData_def getSettings_def
  getFixedSettings_def initial_def set_delete_def set_add_def passesFilters_def
  passesFilters_fixed_def blocked_def pruned_def pruned_fixed_def Let_def

lemma sentTo_append: "sentTo (es @ fs) = sentTo es @ sentTo fs"
  by (induction es rule: sentTo.induct) simp_all

lemma fetched_append: "fetched (es @ fs) = fetched es @ fetched fs"
  by (induction es rule: fetched.induct) simp_all

lemma written_append: "written (es @ fs) = written es @ written fs"
  by (induction es rule: written.induct) simp_all

lemma removeAll_as_filter: "removeAll c xs = filter (\<lambda>k. k \<noteq> c) xs"
  by (induction xs) auto

lemma deliver_cases:
  "deliver e t sg c st =
     (if blocked e t sg c
      then saveUserData ((emit (SendMessage c t sg) st)
             \<lparr>subscribedUsers := set_delete c (subscribedUsers st),
               userSettings := AList.delete c (userSettings st)\<rparr>)
      else emit (SendMessage c t sg) st)"
proof (cases "sendMessage e c t sg")
  case Delivered
  then show ?thesis by (simp add: deliver_def blocked_def)
next
  case (Failed code)
  then show ?thesis by (simp add: deliver_def blocked_def emit_def)
qed

lemma deliver_subscribedUsers:
  "subscribedUsers (deliver e t sg c st) =
     (if blocked e t sg c then removeAll c (subscribedUsers st) else subscribedUsers st)"
  by (simp add: deliver_cases emit_def saveUserData_def set_delete_def)

lemma deliver_userSettings:
  "userSettings (deliver e t sg c st) =
     (if blocked e t sg c then AList.delete c (userSettings st) else userSettings st)"
  by (simp add: deliver_cases emit_def saveUserData_def)

lemma deliver_lastSignature: "lastSignature (deliver e t sg c st) = lastSignature st"
  by (simp add: deliver_cases emit_def saveUserData_def)

lemma deliver_hearsListeners: "hearsListeners (deliver e t sg c st) = hearsListeners st"
  by (simp add: deliver_cases emit_def saveUserData_def)

lemma deliver_effects:
  "effects (deliver e t sg c st) =
     effects st @ SendMessage c t sg #
       (if blocked e t sg c
        then [WriteFile \<lparr>p_userSettings = AList.delete c (userSettings st),
                         p_subscribedUsers = removeAll c (subscribedUsers st),
                         p_lastSignature = lastSignature st\<rparr>]
        else [])"
  by (simp add: deliver_cases emit_def saveUserData_def set_delete_def userData_def)

lemmas deliver_simps = deliver_subscribedUsers deliver_userSettings deliver_lastSignature
  deliver_hearsListeners deliver_effects

lemma notifyUser_eq:
  "notifyUser e t sg c st = (if passesFilters t st c then deliver e t sg c st else st)"
  by (auto simp: notifyUser_def passesFilters_def Let_def)

lemma getSettings_delete:
  "k \<noteq> c \<Longrightarrow> getSettings (st\<lparr>userSettings := AList.delete c (userSettings st)\<rparr>) k = getSettings st k"
  by (simp add: getSettings_def delete_conv)

lemma getSettings_cong:
  "map_of (userSettings st') k = map_of (userSettings st) k \<Longrightarrow> getSettings st' k = getSettings st k"
  by (simp add: getSettings_def)

lemma passesFilters_cong:
  "map_of (userSettings st') k = map_of (userSettings st) k \<Longrightarrow>
   passesFilters t st' k = passesFilters t st k"
  using getSettings_cong [of st' k st] by (simp add: passesFilters_def)

lemma notifyUser_lookup:
  "map_of (userSettings (notifyUser e t sg c st)) k =
     (if k = c \<and> passesFilters t st c \<and> blocked e t sg c then None
      else map_of (userSettings st) k)"
  by (auto simp: notifyUser_eq deliver_simps delete_conv)

lemma notifyUser_passes_other:
  "k \<noteq> c \<Longrightarrow> passesFilters t (notifyUser e t sg c st) k = passesFilters t st k"
  by (rule passesFilters_cong) (simp add: notifyUser_lookup)

lemma fold_notifyUser_subscribedUsers:
  "distinct cs \<Longrightarrow>
   subscribedUsers (fold (notifyUser e t sg) cs st) =
     filter (\<lambda>k. \<not> (k \<in> set cs \<and> passesFilters t st k \<and> blocked e t sg k)) (subscribedUsers st)"
proof (induction cs arbitrary: st)
  case Nil
  then show ?case by simp
next
  case (Cons c cs)
  let ?st1 = "notifyUser e t sg c st"
  from Cons.prems have nc: "c \<notin> set cs" and dc: "distinct cs" by simp_all
  have same: "(k \<in> set cs \<and> passesFilters t ?st1 k \<and> blocked e t sg k) =
              (k \<in> set cs \<and> passesFilters t st k \<and> blocked e t sg k)" for k
  proof (cases "k = c")
    case True
    with nc show ?thesis by simp
  next
    case False
    then show ?thesis by (simp add: notifyUser_passes_other)
  qed
  have step: "subscribedUsers ?st1 =
      filter (\<lambda>k. \<not> (k = c \<and> passesFilters t st c \<and> blocked e t sg c)) (subscribedUsers st)"
  proof (cases "passesFilters t st c \<and> blocked e t sg c")
    case True
    then show ?thesis
      by (simp add: notifyUser_eq deliver_simps removeAll_as_filter)
  next
    case False
    then show ?thesis
      by (auto simp: notifyUser_eq deliver_simps)
  qed
  have "subscribedUsers (fold (notifyUser e t sg) (c # cs) st) =
        filter (\<lambda>k. \<not> (k \<in> set cs \<and> passesFilters t st k \<and> blocked e t sg k)) (subscribedUsers ?st1)"
    using Cons.IH [OF dc, of ?st1] by (simp add: same)
  also have "\<dots> = filter (\<lambda>k. \<not> (k \<in> set cs \<and> passesFilters t st k \<and> blocked e t sg k) \<and>
                            \<not> (k = c \<and> passesFilters t st c \<and> blocked e t sg c)) (subscribedUsers st)"
    by (simp add: step conj_commute)
  also have "\<dots> = filter (\<lambda>k. \<not> (k \<in> set (c # cs) \<and> passesFilters t st k \<and> blocked e t sg k))
                     (subscribedUsers st)"
    by (rule filter_cong) auto
  finally show ?case .
qed

lemma fold_notifyUser_lookup:
  "distinct cs \<Longrightarrow>
   map_of (userSettings (fold (notifyUser e t sg) cs st)) k =
     (if k \<in> set cs \<and> passesFilters t st k \<and> blocked e t sg k then None
      else map_of (userSettings st) k)"
proof (induction cs arbitrary: st)
  case Nil
  then show ?case by simp
next
  case (Cons c cs)
  let ?st1 = "notifyUser e t sg c st"
  from Cons.prems have nc: "c \<notin> set cs" and dc: "distinct cs" by simp_all
  have ih: "map_of (userSettings (fold (notifyUser e t sg) (c # cs) st)) k =
        (if k \<in> set cs \<and> passesFilters t ?st1 k \<and> blocked e t sg k then None
         else map_of (userSettings ?st1) k)"
    using Cons.IH [OF dc, of ?st1] by simp
  show ?case
  proof (cases "k = c")
    case True
    with nc ih show ?thesis by (simp add: notifyUser_lookup)
  next
    case False
    with ih show ?thesis by (simp add: notifyUser_lookup notifyUser_passes_other)
  qed
qed

lemma fold_notifyUser_sentTo:
  "distinct cs \<Longrightarrow>
   sentTo (effects (fold (notifyUser e t sg) cs st)) =
     sentTo (effects st) @ filter (passesFilters t st) cs"
proof (induction cs arbitrary: st)
  case Nil
  then show ?case by simp
next
  case (Cons c cs)
  let ?st1 = "notifyUser e t sg c st"
  from Cons.prems have nc: "c \<notin> set cs" and dc: "distinct cs" by simp_all
  have "filter (passesFilters t ?st1) cs = filter (passesFilters t st) cs"
  proof (rule filter_cong)
    fix x assume "x \<in> set cs"
    with nc have "x \<noteq> c" by blast
    then show "passesFilters t ?st1 x = passesFilters t st x"
      by (rule notifyUser_passes_other)
  qed simp
  moreover have "sentTo (effects ?st1) = sentTo (effects st) @ (if passesFilters t st c then [c] else [])"
    by (simp add: notifyUser_eq deliver_simps sentTo_append)
  ultimately show ?case
    using Cons.IH [OF dc, of ?st1] by simp
qed

lemma fold_notifyUser_lastSignature:
  "lastSignature (fold (notifyUser e t sg) cs st) = lastSignature st"
  by (induction cs arbitrary: st) (simp_all add: notifyUser_eq deliver_simps)

lemma fold_notifyUser_fetched:
  "fetched (effects (fold (notifyUser e t sg) cs st)) = fetched (effects st)"
  by (induction cs arbitrary: st) (simp_all add: notifyUser_eq deliver_simps fetched_append)



lemma notifyUser_written:
  "written (effects (notifyUser e t sg c st)) =
     written (effects st) @
       (if passesFilters t st c \<and> blocked e t sg c then [userData (notifyUser e t sg c st)] else [])"
  by (simp add: notifyUser_eq deliver_cases emit_def saveUserData_def written_append userData_def)

lemma notifyUser_userData:
  "\<not> (passesFilters t st c \<and> blocked e t sg c) \<Longrightarrow>
   userData (notifyUser e t sg c st) = userData st"
  by (auto simp: notifyUser_eq deliver_cases emit_def userData_def)

lemma fold_notifyUser_last_write:
  "distinct cs \<Longrightarrow>
   (\<exists>k \<in> set cs. passesFilters t st k \<and> blocked e t sg k) \<or>
   (written (effects st) \<noteq> [] \<and> last (written (effects st)) = userData st) \<Longrightarrow>
   written (effects (fold (notifyUser e t sg) cs st)) \<noteq> [] \<and>
   last (written (effects (fold (notifyUser e t sg) cs st))) =
     userData (fold (notifyUser e t sg) cs st)"
proof (induction cs arbitrary: st)
  case Nil
  then show ?case by simp
next
  case (Cons c cs)
  let ?st1 = "notifyUser e t sg c st"
  from Cons.prems have nc: "c \<notin> set cs" and dc: "distinct cs" by simp_all
  have "(\<exists>k \<in> set cs. passesFilters t ?st1 k \<and> blocked e t sg k) \<or>
        (written (effects ?st1) \<noteq> [] \<and> last (written (effects ?st1)) = userData ?st1)"
  proof (cases "passesFilters t st c \<and> blocked e t sg c")
    case True
    then show ?thesis by (simp add: notifyUser_written)
  next
    case False
    show ?thesis
    proof (cases "written (effects st) \<noteq> [] \<and> last (written (effects st)) = userData st")
      case True
      with False show ?thesis by (simp add: notifyUser_written notifyUser_userData)
    next
      case nosync: False
      with Cons.prems(2) False obtain k where
        k: "k \<in> set cs" "passesFilters t st k" "blocked e t sg k" by auto
      with nc have "k \<noteq> c" by blast
      with k have "passesFilters t ?st1 k" by (simp add: notifyUser_passes_other)
      with k show ?thesis by blast
    qed
  qed
  from Cons.IH [OF dc this] show ?case by simp
qed

lemma prune_min:
  assumes d: "distinct (subscribedUsers st)" and c: "c \<in> set (subscribedUsers st)"
    and p: "pruned e t sg st c"
  shows "(let st' = notifyAllUsers e t sg st in
       c \<notin> set (subscribedUsers st') \<and> map_of (userSettings st') c = None \<and>
       written (effects st') \<noteq> [] \<and> last (written (effects st')) = userData st' \<and>
       sentTo (effects st') = sentTo (effects st) @ filter (passesFilters t st) (subscribedUsers st) \<and>
       subscribedUsers st' = filter (\<lambda>k. \<not> pruned e t sg st k) (subscribedUsers st) \<and>
       (\<forall>k. \<not> pruned e t sg st k \<longrightarrow> map_of (userSettings st') k = map_of (userSettings st) k))"
proof -
  let ?st' = "fold (notifyUser e t sg) (subscribedUsers st) st"
  have subs: "subscribedUsers ?st' = filter (\<lambda>k. \<not> pruned e t sg st k) (subscribedUsers st)"
    unfolding fold_notifyUser_subscribedUsers [OF d] pruned_def
    by (rule filter_cong) auto
  have look: "map_of (userSettings ?st') k =
      (if k \<in> set (subscribedUsers st) \<and> pruned e t sg st k then None else map_of (userSettings st) k)" for k
    by (simp add: fold_notifyUser_lookup [OF d] pruned_def)
  have "\<exists>k \<in> set (subscribedUsers st). passesFilters t st k \<and> blocked e t sg k"
    using c p by (auto simp: pruned_def)
  then have lw: "written (effects ?st') \<noteq> [] \<and> last (written (effects ?st')) = userData ?st'"
    by (intro fold_notifyUser_last_write [OF d]) blast
  have "c \<notin> set (subscribedUsers ?st')" using p by (simp add: subs)
  moreover have "map_of (userSettings ?st') c = None" using c p by (simp add: look)
  moreover have "\<forall>k. \<not> pruned e t sg st k \<longrightarrow> map_of (userSettings ?st') k = map_of (userSettings st) k"
    by (simp add: look)
  ultimately show ?thesis
    using lw subs fold_notifyUser_sentTo [OF d, of e t sg st]
    by (simp add: notifyAllUsers_def Let_def)
qed


lemma assign_lookup:
  "map_of (userSettings (assignAmountLength n c st)) k =
     (if k = c then map_option (\<lambda>s. s\<lparr>amount := take n (amount s)\<rparr>) (map_of (userSettings st) c)
      else map_of (userSettings st) k)"
  by (simp add: assignAmountLength_def map_of_map_entry split: option.splits)

lemma assign_keys: "map fst (AList.map_entry c f xs) = map fst xs"
  by (induction xs) auto

lemma assign_fields:
  "subscribedUsers (assignAmountLength n c st) = subscribedUsers st"
  "lastSignature (assignAmountLength n c st) = lastSignature st"
  "effects (assignAmountLength n c st) = effects st"
  "map fst (userSettings (assignAmountLength n c st)) = map fst (userSettings st)"
  by (simp_all add: assignAmountLength_def assign_keys)

lemma getFixedSettings_blacklist_assign:
  "blacklist (getFixedSettings (assignAmountLength n c st) k) = blacklist (getFixedSettings st k)"
  by (simp add: getFixedSettings_def assign_lookup split: option.splits)

lemma passesFilters_fixed_assign:
  "passesFilters_fixed t (assignAmountLength n c st) k = passesFilters_fixed t st k"
  by (simp add: passesFilters_fixed_def getFixedSettings_blacklist_assign)

lemma notifyUser_fixed_eq:
  "notifyUser_fixed e t sg c st =
     (if passesFilters_fixed t st c then deliver e t sg c (assignAmountLength 0 c st)
      else assignAmountLength 0 c st)"
  by (simp add: notifyUser_fixed_def passesFilters_fixed_def Let_def)

lemma passesFilters_fixed_cong:
  "map_of (userSettings st') k = map_of (userSettings st) k \<Longrightarrow>
   passesFilters_fixed t st' k = passesFilters_fixed t st k"
  by (simp add: passesFilters_fixed_def getFixedSettings_def)

lemma notifyUser_fixed_lookup_other:
  "k \<noteq> c \<Longrightarrow>
   map_of (userSettings (notifyUser_fixed e t sg c st)) k = map_of (userSettings st) k"
  by (simp add: notifyUser_fixed_eq deliver_simps assign_lookup)

lemma notifyUser_fixed_lookup_pruned:
  "passesFilters_fixed t st c \<Longrightarrow> blocked e t sg c \<Longrightarrow>
   map_of (userSettings (notifyUser_fixed e t sg c st)) c = None"
  by (simp add: notifyUser_fixed_eq deliver_simps delete_conv)

lemma notifyUser_fixed_passes_other:
  "k \<noteq> c \<Longrightarrow> passesFilters_fixed t (notifyUser_fixed e t sg c st) k = passesFilters_fixed t st k"
  by (rule passesFilters_fixed_cong) (simp add: notifyUser_fixed_lookup_other)

lemma notifyUser_fixed_subscribedUsers:
  "subscribedUsers (notifyUser_fixed e t sg c st) =
     filter (\<lambda>k. \<not> (k = c \<and> passesFilters_fixed t st c \<and> blocked e t sg c)) (subscribedUsers st)"
proof (cases "passesFilters_fixed t st c \<and> blocked e t sg c")
  case True
  then show ?thesis
    by (simp add: notifyUser_fixed_eq deliver_simps assign_fields removeAll_as_filter)
next
  case False
  then show ?thesis
    by (auto simp: notifyUser_fixed_eq deliver_simps assign_fields)
qed

lemma fold_notifyUser_fixed_subscribedUsers:
  "distinct cs \<Longrightarrow>
   subscribedUsers (fold (notifyUser_fixed e t sg) cs st) =
     filter (\<lambda>k. \<not> (k \<in> set cs \<and> passesFilters_fixed t st k \<and> blocked e t sg k))
       (subscribedUsers st)"
proof (induction cs arbitrary: st)
  case Nil
  then show ?case by simp
next
  case (Cons c cs)
  let ?st1 = "notifyUser_fixed e t sg c st"
  from Cons.prems have nc: "c \<notin> set cs" and dc: "distinct cs" by simp_all
  have same: "(k \<in> set cs \<and> passesFilters_fixed t ?st1 k \<and> blocked e t sg k) =
              (k \<in> set cs \<and> passesFilters_fixed t st k \<and> blocked e t sg k)" for k
  proof (cases "k = c")
    case True
    with nc show ?thesis by simp
  next
    case False
    then show ?thesis by (simp add: notifyUser_fixed_passes_other)
  qed
  have "subscribedUsers (fold (notifyUser_fixed e t sg) (c # cs) st) =
        filter (\<lambda>k. \<not> (k \<in> set cs \<and> passesFilters_fixed t st k \<and> blocked e t sg k))
          (subscribedUsers ?st1)"
    using Cons.IH [OF dc, of ?st1] by (simp add: same)
  also have "\<dots> = filter (\<lambda>k. \<not> (k \<in> set cs \<and> passesFilters_fixed t st k \<and> blocked e t sg k) \<and>
                   \<not> (k = c \<and> passesFilters_fixed t st c \<and> blocked e t sg c)) (subscribedUsers st)"
    by (simp add: notifyUser_fixed_subscribedUsers conj_commute)
  also have "\<dots> = filter (\<lambda>k. \<not> (k \<in> set (c # cs) \<and> passesFilters_fixed t st k \<and> blocked e t sg k))
                     (subscribedUsers st)"
    by (rule filter_cong) auto
  finally show ?case .
qed

lemma fold_notifyUser_fixed_lookup_notin:
  "k \<notin> set cs \<Longrightarrow>
   map_of (userSettings (fold (notifyUser_fixed e t sg) cs st)) k = map_of (userSettings st) k"
  by (induction cs arbitrary: st) (simp_all add: notifyUser_fixed_lookup_other)

lemma fold_notifyUser_fixed_lookup_pruned:
  "distinct cs \<Longrightarrow> k \<in> set cs \<Longrightarrow> passesFilters_fixed t st k \<Longrightarrow> blocked e t sg k \<Longrightarrow>
   map_of (userSettings (fold (notifyUser_fixed e t sg) cs st)) k = None"
proof (induction cs arbitrary: st)
  case Nil
  then show ?case by simp
next
  case (Cons c cs)
  let ?st1 = "notifyUser_fixed e t sg c st"
  from Cons.prems have nc: "c \<notin> set cs" and dc: "distinct cs" by simp_all
  show ?case
  proof (cases "k = c")
    case True
    have "map_of (userSettings (fold (notifyUser_fixed e t sg) cs ?st1)) c =
          map_of (userSettings ?st1) c"
      using nc by (rule fold_notifyUser_fixed_lookup_notin)
    with True Cons.prems show ?thesis by (simp add: notifyUser_fixed_lookup_pruned)
  next
    case False
    with Cons.prems have "k \<in> set cs" "passesFilters_fixed t ?st1 k"
      by (simp_all add: notifyUser_fixed_passes_other)
    from Cons.IH [OF dc this Cons.prems(4)] show ?thesis by simp
  qed
qed


lemma fold_notifyUser_fixed_sentTo:
  "distinct cs \<Longrightarrow>
   sentTo (effects (fold (notifyUser_fixed e t sg) cs st)) =
     sentTo (effects st) @ filter (passesFilters_fixed t st) cs"
proof (induction cs arbitrary: st)
  case Nil
  then show ?case by simp
next
  case (Cons c cs)
  let ?st1 = "notifyUser_fixed e t sg c st"
  from Cons.prems have nc: "c \<notin> set cs" and dc: "distinct cs" by simp_all
  have "filter (passesFilters_fixed t ?st1) cs = filter (passesFilters_fixed t st) cs"
  proof (rule filter_cong)
    fix x assume "x \<in> set cs"
    with nc have "x \<noteq> c" by blast
    then show "passesFilters_fixed t ?st1 x = passesFilters_fixed t st x"
      by (rule notifyUser_fixed_passes_other)
  qed simp
  moreover have "sentTo (effects ?st1) =
      sentTo (effects st) @ (if passesFilters_fixed t st c then [c] else [])"
    by (simp add: notifyUser_fixed_eq deliver_simps assign_fields sentTo_append)
  ultimately show ?case
    using Cons.IH [OF dc, of ?st1] by simp
qed

lemma notifyUser_fixed_written:
  "written (effects (notifyUser_fixed e t sg c st)) =
     written (effects st) @
       (if passesFilters_fixed t st c \<and> blocked e t sg c
        then [userData (notifyUser_fixed e t sg c st)] else [])"
  by (simp add: notifyUser_fixed_eq deliver_cases emit_def saveUserData_def written_append
      userData_def assign_fields)

lemma notifyUser_fixed_keys_kept:
  "\<not> (passesFilters_fixed t st c \<and> blocked e t sg c) \<Longrightarrow>
   subscribedUsers (notifyUser_fixed e t sg c st) = subscribedUsers st \<and>
   map fst (userSettings (notifyUser_fixed e t sg c st)) = map fst (userSettings st)"
  by (auto simp: notifyUser_fixed_eq deliver_simps assign_fields)

lemma fold_notifyUser_fixed_last_write:
  "distinct cs \<Longrightarrow>
   (\<exists>k \<in> set cs. passesFilters_fixed t st k \<and> blocked e t sg k) \<or>
   (written (effects st) \<noteq> [] \<and>
    p_subscribedUsers (last (written (effects st))) = subscribedUsers st \<and>
    map fst (p_userSettings (last (written (effects st)))) = map fst (userSettings st)) \<Longrightarrow>
   written (effects (fold (notifyUser_fixed e t sg) cs st)) \<noteq> [] \<and>
   p_subscribedUsers (last (written (effects (fold (notifyUser_fixed e t sg) cs st)))) =
     subscribedUsers (fold (notifyUser_fixed e t sg) cs st) \<and>
   map fst (p_userSettings (last (written (effects (fold (notifyUser_fixed e t sg) cs st))))) =
     map fst (userSettings (fold (notifyUser_fixed e t sg) cs st))"
proof (induction cs arbitrary: st)
  case Nil
  then show ?case by simp
next
  case (Cons c cs)
  let ?st1 = "notifyUser_fixed e t sg c st"
  from Cons.prems have nc: "c \<notin> set cs" and dc: "distinct cs" by simp_all
  have "(\<exists>k \<in> set cs. passesFilters_fixed t ?st1 k \<and> blocked e t sg k) \<or>
        (written (effects ?st1) \<noteq> [] \<and>
         p_subscribedUsers (last (written (effects ?st1))) = subscribedUsers ?st1 \<and>
         map fst (p_userSettings (last (written (effects ?st1)))) = map fst (userSettings ?st1))"
  proof (cases "passesFilters_fixed t st c \<and> blocked e t sg c")
    case True
    then show ?thesis by (simp add: notifyUser_fixed_written userData_def)
  next
    case False
    show ?thesis
    proof (cases "written (effects st) \<noteq> [] \<and>
        p_subscribedUsers (last (written (effects st))) = subscribedUsers st \<and>
        map fst (p_userSettings (last (written (effects st)))) = map fst (userSettings st)")
      case True
      with False notifyUser_fixed_keys_kept [OF False] show ?thesis
        by (simp add: notifyUser_fixed_written)
    next
      case nosync: False
      with Cons.prems(2) False obtain k where
        k: "k \<in> set cs" "passesFilters_fixed t st k" "blocked e t sg k" by auto
      with nc have "k \<noteq> c" by blast
      with k have "passesFilters_fixed t ?st1 k" by (simp add: notifyUser_fixed_passes_other)
      with k show ?thesis by blast
    qed
  qed
  from Cons.IH [OF dc this] show ?case by simp
qed

lemma prune_fixed:
  assumes d: "distinct (subscribedUsers st)" and c: "c \<in> set (subscribedUsers st)"
    and p: "pruned_fixed e t sg st c"
  shows "(let st' = notifyAllUsers_fixed e t sg st in
       c \<notin> set (subscribedUsers st') \<and> map_of (userSettings st') c = None \<and>
       written (effects st') \<noteq> [] \<and>
       p_subscribedUsers (last (written (effects st'))) = subscribedUsers st' \<and>
       map fst (p_userSettings (last (written (effects st')))) = map fst (userSettings st') \<and>
       sentTo (effects st') =
         sentTo (effects st) @ filter (passesFilters_fixed t st) (subscribedUsers st) \<and>
       subscribedUsers st' = filter (\<lambda>k. \<not> pruned_fixed e t sg st k) (subscribedUsers st))"
proof -
  let ?st' = "fold (notifyUser_fixed e t sg) (subscribedUsers st) st"
  have subs: "subscribedUsers ?st' = filter (\<lambda>k. \<not> pruned_fixed e t sg st k) (subscribedUsers st)"
    unfolding fold_notifyUser_fixed_subscribedUsers [OF d] pruned_fixed_def
    by (rule filter_cong) auto
  have "\<exists>k \<in> set (subscribedUsers st). passesFilters_fixed t st k \<and> blocked e t sg k"
    using c p by (auto simp: pruned_fixed_def)
  then have lw: "written (effects ?st') \<noteq> [] \<and>
      p_subscribedUsers (last (written (effects ?st'))) = subscribedUsers ?st' \<and>
      map fst (p_userSettings (last (written (effects ?st')))) = map fst (userSettings ?st')"
    by (intro fold_notifyUser_fixed_last_write [OF d]) blast
  have "c \<notin> set (subscribedUsers ?st')" using p by (simp add: subs)
  moreover have "map_of (userSettings ?st') c = None"
    using fold_notifyUser_fixed_lookup_pruned [OF d c] p by (simp add: pruned_fixed_def)
  ultimately show ?thesis
    using lw subs fold_notifyUser_fixed_sentTo [OF d, of e t sg st]
    by (simp add: notifyAllUsers_fixed_def Let_def)
qed

text \<open>
  In the fixed-amount variant the accepted amounts play no part in the dispatch
  (\<open>fold_notifyUser_fixed_sentTo\<close>: a send is attempted for every subscriber whose blacklist does
  not hold \<open>transfer.from\<close>).

  C1. The fixed-amount variant on \<open>emptyFixed\<close>: subscriber 1 has the empty accepted-amount list,
  and the dispatch of an incoming transfer of 0.5 SOL sends it an alert.
\<close>

theorem empty_amount_list_alerted:
  "amount (getFixedSettings emptyFixed 1) = [] \<and>
   sentTo (effects (notifyAllUsers_fixed (quietEnv []) halfIn (sig_of ''S1'') emptyFixed)) = [1]"
  by (simp add: notify_eval emptyFixed_def quietEnv_def)

text \<open>
  The blacklist test reads \<open>transfer.from\<close>. For an incoming transfer that is the counterparty,
  and a blacklisted sender gets no send.
\<close>

lemma blacklisted_sender_suppressed:
  assumes "distinct (subscribedUsers st)" and "tr_type t = Incoming"
    and "fromTo t \<in> set (blacklist (getSettings st c))"
  shows "\<exists>new. sentTo (effects (notifyAllUsers e t sg st)) = sentTo (effects st) @ new \<and>
               c \<notin> set new"
proof -
  from assms(2,3) have "\<not> passesFilters t st c"
    by (simp add: passesFilters_def fromTo_def)
  then have "c \<notin> set (filter (passesFilters t st) (subscribedUsers st))" by simp
  with fold_notifyUser_sentTo [OF assms(1), of e t sg st] show ?thesis
    by (auto simp: notifyAllUsers_def)
qed

text \<open>
  C3. \<open>index.js\<close> on \<open>blacklistB\<close>: subscriber 1 has blacklisted \<open>B\<close>, the counterparty of the
  outgoing transfer \<open>oneOut\<close>, whose amount passes the minimum; the dispatch sends the alert,
  because for an outgoing transfer \<open>transfer.from\<close> is the monitored wallet.
\<close>

theorem blacklisted_recipient_alerted:
  "tr_type oneOut = Outgoing \<and>
   fromTo oneOut \<in> set (blacklist (getSettings blacklistB 1)) \<and>
   \<not> tr_amount oneOut < minAmount (getSettings blacklistB 1) \<and>
   sentTo (effects (notifyAllUsers (quietEnv []) oneOut (sig_of ''S1'') blacklistB)) = [1]"
  by (simp add: notify_eval blacklistB_def quietEnv_def oneOut_def fromTo_def wallet_def)

text \<open>
  C8. A subscriber \<open>c\<close> whose send is attempted and fails with error code 403 is, after the
  dispatch, neither in \<open>subscribedUsers\<close> nor a key of \<open>userSettings\<close>; the last snapshot written
  holds the subscriber set the dispatch ends with (in \<open>index.js\<close>: the whole final state); and
  the sends of the dispatch are exactly those to the subscribers that pass their own filters, in
  order, so that no other subscriber's send depends on the failure. For \<open>index.js\<close> and for the
  fixed-amount variant.
\<close>

theorem permanent_failure_prunes:
  "(distinct (subscribedUsers st) \<and> c \<in> set (subscribedUsers st) \<and> pruned e t sg st c \<longrightarrow>
      (let st' = notifyAllUsers e t sg st in
       c \<notin> set (subscribedUsers st') \<and> map_of (userSettings st') c = None \<and>
       written (effects st') \<noteq> [] \<and> last (written (effects st')) = userData st' \<and>
       sentTo (effects st') = sentTo (effects st) @ filter (passesFilters t st) (subscribedUsers st) \<and>
       subscribedUsers st' = filter (\<lambda>k. \<not> pruned e t sg st k) (subscribedUsers st) \<and>
       (\<forall>k. \<not> pruned e t sg st k \<longrightarrow> map_of (userSettings st') k = map_of (userSettings st) k))) \<and>
   (distinct (subscribedUsers fs) \<and> c \<in> set (subscribedUsers fs) \<and> pruned_fixed e t sg fs c \<longrightarrow>
      (let fs' = notifyAllUsers_fixed e t sg fs in
       c \<notin> set (subscribedUsers fs') \<and> map_of (userSettings fs') c = None \<and>
       written (effects fs') \<noteq> [] \<and>
       p_subscribedUsers (last (written (effects fs'))) = subscribedUsers fs' \<and>
       map fst (p_userSettings (last (written (effects fs')))) = map fst (userSettings fs') \<and>
       sentTo (effects fs') =
         sentTo (effects fs) @ filter (passesFilters_fixed t fs) (subscribedUsers fs) \<and>
       subscribedUsers fs' = filter (\<lambda>k. \<not> pruned_fixed e t sg fs k) (subscribedUsers fs)))"
  using prune_min [of st c e t sg] prune_fixed [of fs c e t sg] by blast

theorem permanent_failure_prunes_witness:
  "subscribedUsers (notifyAllUsers blockedEnv halfIn (sig_of ''S1'') threeUsers) = [1, 3] \<and>
   map_of (userSettings (notifyAllUsers blockedEnv halfIn (sig_of ''S1'') threeUsers)) 2 = None \<and>
   last (written (effects (notifyAllUsers blockedEnv halfIn (sig_of ''S1'') threeUsers))) =
     userData (notifyAllUsers blockedEnv halfIn (sig_of ''S1'') threeUsers) \<and>
   sentTo (effects (notifyAllUsers blockedEnv halfIn (sig_of ''S1'') threeUsers)) = [1, 2, 3] \<and>
   subscribedUsers (notifyAllUsers_fixed blockedEnv halfIn (sig_of ''S1'') threeUsers_fixed) = [1, 3] \<and>
   map_of (userSettings (notifyAllUsers_fixed blockedEnv halfIn (sig_of ''S1'') threeUsers_fixed)) 2 = None \<and>
   sentTo (effects (notifyAllUsers_fixed blockedEnv halfIn (sig_of ''S1'') threeUsers_fixed)) = [1, 2, 3]"
proof -
  have h1: "distinct (subscribedUsers threeUsers) \<and> 2 \<in> set (subscribedUsers threeUsers) \<and>
      pruned blockedEnv halfIn (sig_of ''S1'') threeUsers 2"
    by (simp add: threeUsers_def blockedEnv_def halfIn_def notify_eval)
  have h2: "distinct (subscribedUsers threeUsers_fixed) \<and> 2 \<in> set (subscribedUsers threeUsers_fixed) \<and>
      pruned_fixed blockedEnv halfIn (sig_of ''S1'') threeUsers_fixed 2"
    by (simp add: threeUsers_fixed_def blockedEnv_def halfIn_def notify_eval)
  have f1: "filter (\<lambda>k. \<not> pruned blockedEnv halfIn (sig_of ''S1'') threeUsers k) (subscribedUsers threeUsers) = [1, 3]"
    "filter (passesFilters halfIn threeUsers) (subscribedUsers threeUsers) = [1, 2, 3]"
    "sentTo (effects threeUsers) = []"
    by (simp_all add: threeUsers_def blockedEnv_def halfIn_def notify_eval)
  have f2: "filter (\<lambda>k. \<not> pruned_fixed blockedEnv halfIn (sig_of ''S1'') threeUsers_fixed k)
        (subscribedUsers threeUsers_fixed) = [1, 3]"
    "filter (passesFilters_fixed halfIn threeUsers_fixed) (subscribedUsers threeUsers_fixed) = [1, 2, 3]"
    "sentTo (effects threeUsers_fixed) = []"
    by (simp_all add: threeUsers_fixed_def blockedEnv_def halfIn_def notify_eval)
  from permanent_failure_prunes [of threeUsers 2 blockedEnv halfIn "sig_of ''S1''" threeUsers_fixed]
    h1 h2 f1 f2
  show ?thesis by (simp add: Let_def)
qed

section \<open>Poll cycle\<close>

lemmas cycle_eval = pollCycle_def checkForNewTransactions_def checkForNewTransactions_hard_def
  processAndAdvance_def processTransaction_def processTransaction_hard_def
  getSignaturesForAddress_def startMonitoring_def isValidSolanaAddress_def saveUserData_hard_def
  userData_hard_def since_def

lemma findNewSignatures_acc:
  "findNewSignatures cursor ids acc = acc @ takeWhile (\<lambda>sg. Some (signature sg) \<noteq> cursor) ids"
  by (induction ids arbitrary: acc) simp_all

lemma quiet_Nil [simp]: "quiet cur []"
  by (simp add: quiet_def)

lemma quiet_append: "quiet cur (es @ fs) = (quiet cur es \<and> quiet cur fs)"
  by (auto simp: quiet_def fetched_append written_append)

lemma keepsCursor_iff:
  "keepsCursor st st' =
     (lastSignature st' = lastSignature st \<and>
      (\<exists>es. effects st' = effects st @ es \<and> quiet (lastSignature st) es))"
proof
  assume k: "keepsCursor st st'"
  then have "effects st' = effects st @ since st st'"
    unfolding keepsCursor_def since_def by (metis append_take_drop_id)
  with k show "lastSignature st' = lastSignature st \<and>
      (\<exists>es. effects st' = effects st @ es \<and> quiet (lastSignature st) es)"
    unfolding keepsCursor_def by blast
next
  assume "lastSignature st' = lastSignature st \<and>
      (\<exists>es. effects st' = effects st @ es \<and> quiet (lastSignature st) es)"
  then show "keepsCursor st st'"
    by (auto simp: keepsCursor_def since_def)
qed

lemma keepsCursor_refl [simp]: "keepsCursor st st"
  by (simp add: keepsCursor_iff)

lemma keepsCursor_trans: "keepsCursor a b \<Longrightarrow> keepsCursor b c \<Longrightarrow> keepsCursor a c"
  unfolding keepsCursor_iff by (auto simp: quiet_append)

lemma keepsCursor_fold:
  assumes "\<And>x s. keepsCursor s (f x s)"
  shows "keepsCursor st (fold f xs st)"
proof (induction xs arbitrary: st)
  case Nil
  show ?case by simp
next
  case (Cons x xs)
  from assms [of st x] Cons [of "f x st"] show ?case
    by (auto intro: keepsCursor_trans)
qed

lemma keepsCursor_send: "keepsCursor st (emit (SendMessage c t sg) st)"
  by (simp add: keepsCursor_iff emit_def quiet_def)

lemma keepsCursor_deliver: "keepsCursor st (deliver e t sg c st)"
  by (simp add: keepsCursor_iff deliver_simps quiet_def)

lemma keepsCursor_notifyUser: "keepsCursor st (notifyUser e t sg c st)"
  by (simp add: notifyUser_eq keepsCursor_deliver)

lemma keepsCursor_notifyAllUsers: "keepsCursor st (notifyAllUsers e t sg st)"
  unfolding notifyAllUsers_def by (rule keepsCursor_fold) (rule keepsCursor_notifyUser)

lemma keepsCursor_assign: "keepsCursor st (assignAmountLength n c st)"
  by (simp add: keepsCursor_iff assign_fields)

lemma keepsCursor_notifyUser_fixed: "keepsCursor st (notifyUser_fixed e t sg c st)"
  by (auto simp: notifyUser_fixed_eq keepsCursor_assign
      intro: keepsCursor_trans [OF keepsCursor_assign keepsCursor_deliver])

lemma keepsCursor_notifyAllUsers_fixed: "keepsCursor st (notifyAllUsers_fixed e t sg st)"
  unfolding notifyAllUsers_fixed_def by (rule keepsCursor_fold) (rule keepsCursor_notifyUser_fixed)

lemma keepsCursor_notifyUser_hard: "keepsCursor st (notifyUser_hard e t sg c st)"
proof (cases "sendMessage e c t sg")
  case Delivered
  then show ?thesis by (simp add: notifyUser_hard_def keepsCursor_send)
next
  case (Failed code)
  then show ?thesis
    by (cases "code = Some 403")
       (simp_all add: notifyUser_hard_def keepsCursor_iff emit_def saveUserData_hard_def
          userData_hard_def quiet_def Let_def)
qed

lemma keepsCursor_notifyAllUsers_hard: "keepsCursor st (notifyAllUsers_hard e t sg st)"
  unfolding notifyAllUsers_hard_def by (rule keepsCursor_fold) (rule keepsCursor_notifyUser_hard)

text \<open>processTransaction: one lookup, then quiet effects.\<close>

lemma processTransaction_shape:
  assumes "\<And>t s. keepsCursor s (notify e t sg s)"
  shows "keepsCursor (emit (GetTransaction (signature sg)) st) (processTransaction notify e sg st)"
proof -
  have "keepsCursor s (fold (\<lambda>t. notify e t sg) ts s)" for ts s
    by (rule keepsCursor_fold) (rule assms)
  then show ?thesis
    by (auto simp: processTransaction_def Let_def split: tx_response.splits option.splits)
qed

lemma processTransaction_hard_shape:
  "keepsCursor (emit (GetTransaction (signature sg)) st) (processTransaction_hard e sg st)"
proof -
  have "keepsCursor s (fold (\<lambda>t s. if tr_amount t \<in> set fixedSolAmounts
                            then notifyAllUsers_hard e t sg s else s) ts s)" for ts s
    by (rule keepsCursor_fold) (simp add: keepsCursor_notifyAllUsers_hard)
  then show ?thesis
    by (auto simp: processTransaction_hard_def Let_def split: tx_response.splits option.splits)
qed


lemma process_effects:
  assumes "keepsCursor (emit (GetTransaction x) st) st'"
  shows "lastSignature st' = lastSignature st \<and>
         (\<exists>es. effects st' = effects st @ GetTransaction x # es \<and> quiet (lastSignature st) es)"
  using assms by (auto simp: keepsCursor_iff emit_def)

lemma fold_process:
  assumes shape: "\<And>sg s. keepsCursor (emit (GetTransaction (signature sg)) s) (process e sg s)"
  shows "lastSignature (fold (process e) sgs st) = lastSignature st \<and>
         (\<exists>es. effects (fold (process e) sgs st) = effects st @ es \<and>
               fetched es = map signature sgs)"
proof (induction sgs arbitrary: st)
  case Nil
  show ?case by simp
next
  case (Cons sg sgs)
  let ?st1 = "process e sg st"
  from process_effects [OF shape [of sg st]] obtain es where
    l1: "lastSignature ?st1 = lastSignature st" and
    e1: "effects ?st1 = effects st @ GetTransaction (signature sg) # es" and q: "quiet (lastSignature st) es"
    by blast
  from Cons [of ?st1] obtain fs where
    l2: "lastSignature (fold (process e) sgs ?st1) = lastSignature ?st1" and
    e2: "effects (fold (process e) sgs ?st1) = effects ?st1 @ fs" and f2: "fetched fs = map signature sgs"
    by blast
  have "effects (fold (process e) (sg # sgs) st) = effects st @ (GetTransaction (signature sg) # es @ fs)"
    using e1 e2 by simp
  moreover have "fetched (GetTransaction (signature sg) # es @ fs) = map signature (sg # sgs)"
    using q f2 by (simp add: fetched_append quiet_def)
  ultimately show ?case using l1 l2 by auto
qed

lemma cursorBehind_append:
  "cursorBehind c0 seen (es @ fs) =
     (cursorBehind c0 seen es \<and> cursorBehind c0 (rev (fetched es) @ seen) fs)"
proof (induction es arbitrary: seen)
  case Nil
  show ?case by simp
next
  case (Cons x es)
  then show ?case by (cases x) auto
qed

lemma cursorBehind_seen_mono:
  "set seen \<subseteq> set seen' \<Longrightarrow> cursorBehind c0 seen es \<Longrightarrow> cursorBehind c0 seen' es"
proof (induction es arbitrary: seen seen')
  case Nil
  show ?case by simp
next
  case (Cons x es)
  show ?case
  proof (cases x)
    case (GetTransaction s)
    with Cons.prems have "cursorBehind c0 (s # seen) es" by simp
    moreover from Cons.prems have "set (s # seen) \<subseteq> set (s # seen')" by auto
    ultimately have "cursorBehind c0 (s # seen') es" by (rule Cons.IH [rotated])
    with GetTransaction show ?thesis by simp
  next
    case (SendMessage c t sg)
    with Cons show ?thesis by auto
  next
    case (WriteFile d)
    with Cons.prems have "cursorBehind c0 seen es" by simp
    with Cons.prems(1) have "cursorBehind c0 seen' es" by (rule Cons.IH)
    with WriteFile Cons.prems show ?thesis by auto
  qed
qed

lemma cursorBehind_quiet:
  "quiet cur es \<Longrightarrow> cur = c0 \<or> cur \<in> Some ` set seen \<Longrightarrow> cursorBehind c0 seen es"
proof (induction es)
  case Nil
  show ?case by simp
next
  case (Cons x es)
  then show ?case by (cases x) (auto simp: quiet_def)
qed

lemma processAndAdvance_effects:
  "\<exists>es d. effects (processAndAdvance e sg st) =
            effects st @ GetTransaction (signature sg) # es @ [WriteFile d] \<and>
          quiet (lastSignature st) es \<and> p_lastSignature d = Some (signature sg)"
proof -
  from process_effects [OF processTransaction_hard_shape [of sg st e]] obtain es where
    e1: "effects (processTransaction_hard e sg st) = effects st @ GetTransaction (signature sg) # es"
    and q: "quiet (lastSignature st) es"
    by blast
  define d where
    "d = userData_hard ((processTransaction_hard e sg st)\<lparr>lastSignature := Some (signature sg)\<rparr>)"
  have "p_lastSignature d = Some (signature sg)" by (simp add: d_def userData_hard_def)
  moreover have "effects (processAndAdvance e sg st) =
      effects st @ GetTransaction (signature sg) # es @ [WriteFile d]"
    by (simp add: processAndAdvance_def saveUserData_hard_def emit_def e1 d_def)
  ultimately show ?thesis using q by blast
qed

lemma processAndAdvance_lastSignature:
  "lastSignature (processAndAdvance e sg st) = Some (signature sg)"
  by (simp add: processAndAdvance_def saveUserData_hard_def emit_def)

lemma fold_hard_step:
  assumes "lastSignature st = c0 \<or> lastSignature st \<in> Some ` set seen"
  shows "\<exists>new.
     effects (fold (processAndAdvance e) sgs st) = effects st @ new \<and>
     cursorBehind c0 seen new \<and> fetched new = map signature sgs \<and>
     lastSignature (fold (processAndAdvance e) sgs st)
       = (if sgs = [] then lastSignature st else Some (signature (last sgs)))"
  using assms
proof (induction sgs arbitrary: st seen)
  case Nil
  show ?case by simp
next
  case (Cons sg sgs)
  let ?x = "signature sg"
  let ?st1 = "processAndAdvance e sg st"
  from processAndAdvance_effects [of e sg st] obtain es d where
    eff1: "effects ?st1 = effects st @ GetTransaction ?x # es @ [WriteFile d]"
    and q: "quiet (lastSignature st) es" and pd: "p_lastSignature d = Some ?x"
    by blast
  have cur1: "lastSignature ?st1 = Some ?x"
    by (rule processAndAdvance_lastSignature)
  then have "lastSignature ?st1 = c0 \<or> lastSignature ?st1 \<in> Some ` set (?x # seen)" by simp
  from Cons.IH [OF this] obtain new where
    e2: "effects (fold (processAndAdvance e) sgs ?st1) = effects ?st1 @ new" and
    cb: "cursorBehind c0 (?x # seen) new" and f2: "fetched new = map signature sgs" and
    l2: "lastSignature (fold (processAndAdvance e) sgs ?st1) =
          (if sgs = [] then lastSignature ?st1 else Some (signature (last sgs)))"
    by blast
  have fes: "fetched es = []" using q by (simp add: quiet_def)
  have "cursorBehind c0 (?x # seen) es"
    using q Cons.prems by (intro cursorBehind_quiet [of "lastSignature st"]) auto
  then have "cursorBehind c0 seen (GetTransaction ?x # es @ [WriteFile d] @ new)"
    using cb pd fes by (simp add: cursorBehind_append)
  moreover have "effects (fold (processAndAdvance e) (sg # sgs) st) =
      effects st @ (GetTransaction ?x # es @ [WriteFile d] @ new)"
    using e2 eff1 by simp
  moreover have "fetched (GetTransaction ?x # es @ [WriteFile d] @ new) = map signature (sg # sgs)"
    using fes f2 by (simp add: fetched_append)
  moreover have "lastSignature (fold (processAndAdvance e) (sg # sgs) st) =
      (if sg # sgs = [] then lastSignature st else Some (signature (last (sg # sgs))))"
    using l2 cur1 by simp
  ultimately show ?case by blast
qed

lemma since_append [simp]: "since st (st'\<lparr>effects := effects st @ es\<rparr>) = es"
  by (simp add: since_def)

lemma since_eq: "effects st' = effects st @ es \<Longrightarrow> since st st' = es"
  by (simp add: since_def)

lemma since_same [simp]: "since st st = []"
  by (simp add: since_def)

lemma pollCycle_shape:
  "keepsCursor (emit (GetTransaction (signature sg)) s) (processTransaction notifyAllUsers e sg s)"
  by (rule processTransaction_shape) (rule keepsCursor_notifyAllUsers)

text \<open>What a cycle of index.js does, by the listing it gets.\<close>

lemma pollCycle_found:
  assumes v: "validPublicKey e (monitoredWallet e)" and l: "ledger e = Some ids"
    and n: "findNewSignatures (lastSignature st) (take 10 ids) [] \<noteq> []"
  shows "lastSignature (pollCycle e st) = Some (signature (hd ids)) \<and>
     (\<exists>rest. effects (pollCycle e st) =
          effects st @ WriteFile (userData (st\<lparr>lastSignature := Some (signature (hd ids))\<rparr>)) # rest \<and>
        fetched rest = map signature (rev (findNewSignatures (lastSignature st) (take 10 ids) [])))"
proof -
  from n obtain first others where t: "take 10 ids = first # others"
    by (cases "take 10 ids") auto
  then have h: "hd ids = first" by (cases ids) auto
  let ?new = "findNewSignatures (lastSignature st) (first # others) []"
  let ?s0 = "saveUserData (st\<lparr>lastSignature := Some (signature first)\<rparr>)"
  have pc: "pollCycle e st = fold (processTransaction notifyAllUsers e) (rev ?new) ?s0"
    using v l t n by (simp add: pollCycle_def checkForNewTransactions_def getSignaturesForAddress_def)
  from fold_process [of "processTransaction notifyAllUsers" e "rev ?new" ?s0, OF pollCycle_shape]
  obtain es where
    l1: "lastSignature (fold (processTransaction notifyAllUsers e) (rev ?new) ?s0) = lastSignature ?s0"
    and e1: "effects (fold (processTransaction notifyAllUsers e) (rev ?new) ?s0) = effects ?s0 @ es"
    and f1: "fetched es = map signature (rev ?new)"
    by blast
  have "effects ?s0 = effects st @ [WriteFile (userData (st\<lparr>lastSignature := Some (signature first)\<rparr>))]"
    by (simp add: saveUserData_def emit_def)
  moreover have "lastSignature ?s0 = Some (signature first)"
    by (simp add: saveUserData_def emit_def)
  ultimately show ?thesis
    using pc l1 e1 f1 h t by simp
qed

lemma pollCycle_nothing:
  assumes "\<not> validPublicKey e (monitoredWallet e) \<or> ledger e = None \<or>
    (\<exists>ids. ledger e = Some ids \<and> findNewSignatures (lastSignature st) (take 10 ids) [] = [])"
  shows "pollCycle e st = st"
  using assms
  by (auto simp: pollCycle_def checkForNewTransactions_def getSignaturesForAddress_def
      split: list.splits)

lemma takeWhile_hd_last:
  "takeWhile P xs \<noteq> [] \<Longrightarrow> last (rev (takeWhile P xs)) = hd xs"
  by (cases xs) (auto simp: last_rev split: if_splits)

text \<open>
  C5. With a present cursor \<open>c\<close>, the ids a cycle of \<open>index.js\<close> collects from the listing
  (at most 10, newest first) are, reversed, the poll diff of the specification; the cycle looks
  the transactions up in that order, oldest first, and leaves the cursor at the newest new id
  (unchanged when there is none). For cursor \<open>S3\<close> and the listing \<open>[S5, S4, S3]\<close>: \<open>S4\<close>,
  then \<open>S5\<close>, cursor \<open>S5\<close>.
\<close>

theorem poll_diff_oldest_first:
  assumes v: "validPublicKey e (monitoredWallet e)" and l: "ledger e = Some ids"
    and c: "lastSignature st = Some c"
  shows "rev (findNewSignatures (lastSignature st) (take 10 ids) []) = pollDiff_spec c (take 10 ids) \<and>
     fetched (effects (pollCycle e st)) =
       fetched (effects st) @ map signature (pollDiff_spec c (take 10 ids)) \<and>
     lastSignature (pollCycle e st) =
       (if pollDiff_spec c (take 10 ids) = [] then Some c
        else Some (signature (last (pollDiff_spec c (take 10 ids)))))"
proof -
  have d: "rev (findNewSignatures (lastSignature st) (take 10 ids) []) = pollDiff_spec c (take 10 ids)"
    by (simp add: findNewSignatures_acc pollDiff_spec_def c)
  show ?thesis
  proof (cases "findNewSignatures (lastSignature st) (take 10 ids) [] = []")
    case True
    with l have "pollCycle e st = st" by (intro pollCycle_nothing) blast
    moreover from True d have "pollDiff_spec c (take 10 ids) = []" by simp
    ultimately show ?thesis using d c by simp
  next
    case False
    from pollCycle_found [OF v l False] obtain rest where
      l1: "lastSignature (pollCycle e st) = Some (signature (hd ids))" and
      e1: "effects (pollCycle e st) =
          effects st @ WriteFile (userData (st\<lparr>lastSignature := Some (signature (hd ids))\<rparr>)) # rest" and
      f1: "fetched rest = map signature (rev (findNewSignatures (lastSignature st) (take 10 ids) []))"
      by blast
    from False have tw: "takeWhile (\<lambda>sg. signature sg \<noteq> c) (take 10 ids) \<noteq> []"
      by (simp add: findNewSignatures_acc c)
    then have "take 10 ids \<noteq> []" by auto
    then have "hd (take 10 ids) = hd ids" by (cases ids) auto
    with takeWhile_hd_last [OF tw] have "last (pollDiff_spec c (take 10 ids)) = hd ids"
      by (simp add: pollDiff_spec_def)
    moreover from tw have "pollDiff_spec c (take 10 ids) \<noteq> []" by (simp add: pollDiff_spec_def)
    ultimately show ?thesis
      using d l1 e1 f1 by (simp add: fetched_append)
  qed
qed

theorem poll_diff_oldest_first_witness:
  "pollDiff_spec ''S3'' (take 10 s543) = [sig_of ''S4'', sig_of ''S5''] \<and>
   fetched (effects (pollCycle (quietEnv s543) (initial\<lparr>lastSignature := Some ''S3''\<rparr>))) =
     [''S4'', ''S5''] \<and>
   lastSignature (pollCycle (quietEnv s543) (initial\<lparr>lastSignature := Some ''S3''\<rparr>)) = Some ''S5''"
proof -
  have d: "pollDiff_spec ''S3'' (take 10 s543) = [sig_of ''S4'', sig_of ''S5'']"
    by (simp add: pollDiff_spec_def s543_def sig_of_def)
  have h: "validPublicKey (quietEnv s543) (monitoredWallet (quietEnv s543))"
    "ledger (quietEnv s543) = Some s543"
    "lastSignature ((initial :: settings monitor)\<lparr>lastSignature := Some ''S3''\<rparr>) = Some ''S3''"
    "fetched (effects ((initial :: settings monitor)\<lparr>lastSignature := Some ''S3''\<rparr>)) = []"
    by (simp_all add: quietEnv_def initial_def)
  from poll_diff_oldest_first [OF h(1) h(2) h(3)] d h(4) show ?thesis
    by (simp add: sig_of_def)
qed

lemma hard_nothing:
  assumes "\<not> validPublicKey e (monitoredWallet e) \<or> ledger e = None \<or>
    (\<exists>ids. ledger e = Some ids \<and> findNewSignatures (lastSignature st) (take 10 ids) [] = [])"
  shows "checkForNewTransactions_hard e st = st"
  using assms
  by (auto simp: checkForNewTransactions_hard_def getSignaturesForAddress_def split: list.splits)

lemma hard_found:
  assumes v: "validPublicKey e (monitoredWallet e)" and l: "ledger e = Some ids"
    and n: "findNewSignatures (lastSignature st) (take 10 ids) [] \<noteq> []"
  shows "\<exists>new. effects (checkForNewTransactions_hard e st) = effects st @ new \<and>
     cursorBehind (lastSignature st) [] new \<and>
     fetched new = map signature (rev (findNewSignatures (lastSignature st) (take 10 ids) [])) \<and>
     lastSignature (checkForNewTransactions_hard e st) = Some (signature (hd ids))"
proof -
  from n obtain first others where t: "take 10 ids = first # others"
    by (cases "take 10 ids") auto
  then have h: "hd ids = first" by (cases ids) auto
  let ?new = "findNewSignatures (lastSignature st) (first # others) []"
  let ?step = "processAndAdvance e"
  have pc: "checkForNewTransactions_hard e st = fold ?step (rev ?new) st"
    using v l t n by (simp add: checkForNewTransactions_hard_def getSignaturesForAddress_def)
  have ne: "?new \<noteq> []" using n t by simp
  then have "takeWhile (\<lambda>sg. Some (signature sg) \<noteq> lastSignature st) (first # others) \<noteq> []"
    by (simp add: findNewSignatures_acc)
  then have "last (rev ?new) = first"
    using takeWhile_hd_last [of "\<lambda>sg. Some (signature sg) \<noteq> lastSignature st" "first # others"]
    by (simp add: findNewSignatures_acc)
  moreover have "lastSignature st = lastSignature st \<or> lastSignature st \<in> Some ` set []" by simp
  from fold_hard_step [OF this, of e "rev ?new"] obtain new where
    "effects (fold ?step (rev ?new) st) = effects st @ new" "cursorBehind (lastSignature st) [] new"
    "fetched new = map signature (rev ?new)"
    "lastSignature (fold ?step (rev ?new) st) =
       (if rev ?new = [] then lastSignature st else Some (signature (last (rev ?new))))"
    by blast
  ultimately show ?thesis using pc ne h t by auto
qed

text \<open>
  C2, as stated, fails on \<open>index.js\<close>: with cursor \<open>S3\<close> and the listing \<open>[S5, S4, S3]\<close> the
  first effect of the cycle is the snapshot with cursor \<open>S5\<close>, written before \<open>S4\<close> or \<open>S5\<close>
  is looked up.
\<close>

theorem cursor_before_processing_counterexample:
  "fetched (since atS3 (pollCycle (quietEnv s543) atS3)) = [''S4'', ''S5''] \<and>
   \<not> cursorBehind (lastSignature (atS3 :: settings monitor)) []
        (since atS3 (pollCycle (quietEnv s543) atS3))"
  by (simp add: cycle_eval notify_eval quietEnv_def sig_of_def s543_def atS3_def)

text \<open>
  C2, amended. In the hard-coded variant an iteration of the loop looks the transaction up,
  dispatches with the cursor left alone, and writes the snapshot with the new cursor last; every
  snapshot a cycle writes holds the cursor the cycle began with or a signature already looked
  up, the lookups run oldest first and the cursor ends at the newest new id. In \<open>index.js\<close> a
  cycle that finds new ids first writes the snapshot whose cursor is the newest listed id, and
  makes all its lookups after that.
\<close>

theorem cursor_after_processing:
  "(\<exists>es d. since hs (processAndAdvance e sg hs) =
             GetTransaction (signature sg) # es @ [WriteFile d] \<and>
           quiet (lastSignature hs) es \<and> p_lastSignature d = Some (signature sg)) \<and>
   cursorBehind (lastSignature hs) [] (since hs (checkForNewTransactions_hard e hs)) \<and>
   (validPublicKey e (monitoredWallet e) \<and> ledger e = Some ids \<and>
    findNewSignatures (lastSignature hs) (take 10 ids) [] \<noteq> [] \<longrightarrow>
      fetched (since hs (checkForNewTransactions_hard e hs)) =
        map signature (rev (findNewSignatures (lastSignature hs) (take 10 ids) [])) \<and>
      lastSignature (checkForNewTransactions_hard e hs) = Some (signature (hd ids))) \<and>
   (validPublicKey e (monitoredWallet e) \<and> ledger e = Some ids \<and>
    findNewSignatures (lastSignature st) (take 10 ids) [] \<noteq> [] \<longrightarrow>
      lastSignature (pollCycle e st) = Some (signature (hd ids)) \<and>
      (\<exists>rest. since st (pollCycle e st) =
                 WriteFile (userData (st\<lparr>lastSignature := Some (signature (hd ids))\<rparr>)) # rest \<and>
               fetched rest =
                 map signature (rev (findNewSignatures (lastSignature st) (take 10 ids) []))))"
proof (intro conjI impI)
  from processAndAdvance_effects [of e sg hs]
  show "\<exists>es d. since hs (processAndAdvance e sg hs) =
             GetTransaction (signature sg) # es @ [WriteFile d] \<and>
           quiet (lastSignature hs) es \<and> p_lastSignature d = Some (signature sg)"
    by (auto simp: since_eq)
next
  show "cursorBehind (lastSignature hs) [] (since hs (checkForNewTransactions_hard e hs))"
  proof (cases "\<not> validPublicKey e (monitoredWallet e) \<or> ledger e = None \<or>
    (\<exists>ids. ledger e = Some ids \<and> findNewSignatures (lastSignature hs) (take 10 ids) [] = [])")
    case True
    then have "checkForNewTransactions_hard e hs = hs" by (rule hard_nothing)
    then show ?thesis by simp
  next
    case False
    then obtain ids' where "validPublicKey e (monitoredWallet e)" "ledger e = Some ids'"
      "findNewSignatures (lastSignature hs) (take 10 ids') [] \<noteq> []" by auto
    from hard_found [OF this] show ?thesis by (auto simp: since_eq)
  qed
next
  assume a: "validPublicKey e (monitoredWallet e) \<and> ledger e = Some ids \<and>
    findNewSignatures (lastSignature hs) (take 10 ids) [] \<noteq> []"
  then have "\<exists>new. effects (checkForNewTransactions_hard e hs) = effects hs @ new \<and>
     cursorBehind (lastSignature hs) [] new \<and>
     fetched new = map signature (rev (findNewSignatures (lastSignature hs) (take 10 ids) [])) \<and>
     lastSignature (checkForNewTransactions_hard e hs) = Some (signature (hd ids))"
    by (intro hard_found) simp_all
  then show "fetched (since hs (checkForNewTransactions_hard e hs)) =
        map signature (rev (findNewSignatures (lastSignature hs) (take 10 ids) []))"
    and "lastSignature (checkForNewTransactions_hard e hs) = Some (signature (hd ids))"
    by (auto simp: since_eq)
next
  assume a: "validPublicKey e (monitoredWallet e) \<and> ledger e = Some ids \<and>
    findNewSignatures (lastSignature st) (take 10 ids) [] \<noteq> []"
  then have f: "lastSignature (pollCycle e st) = Some (signature (hd ids)) \<and>
     (\<exists>rest. effects (pollCycle e st) =
          effects st @ WriteFile (userData (st\<lparr>lastSignature := Some (signature (hd ids))\<rparr>)) # rest \<and>
        fetched rest = map signature (rev (findNewSignatures (lastSignature st) (take 10 ids) [])))"
    by (intro pollCycle_found) simp_all
  then show "lastSignature (pollCycle e st) = Some (signature (hd ids))" by simp
  from f show "\<exists>rest. since st (pollCycle e st) =
                 WriteFile (userData (st\<lparr>lastSignature := Some (signature (hd ids))\<rparr>)) # rest \<and>
               fetched rest =
                 map signature (rev (findNewSignatures (lastSignature st) (take 10 ids) []))"
    by (auto simp: since_eq)
qed

theorem cursor_after_processing_witness:
  "(\<exists>es d. since atS3 (processAndAdvance (quietEnv s543) (sig_of ''S4'') atS3) =
             GetTransaction ''S4'' # es @ [WriteFile d] \<and>
           quiet (Some ''S3'') es \<and> p_lastSignature d = Some ''S4'') \<and>
   cursorBehind (Some ''S3'') [] (since atS3 (checkForNewTransactions_hard (quietEnv s543) atS3)) \<and>
   fetched (since atS3 (checkForNewTransactions_hard (quietEnv s543) atS3)) = [''S4'', ''S5''] \<and>
   lastSignature (checkForNewTransactions_hard (quietEnv s543) atS3) = Some ''S5'' \<and>
   lastSignature (pollCycle (quietEnv s543) atS3) = Some ''S5'' \<and>
   (\<exists>rest. since atS3 (pollCycle (quietEnv s543) atS3) =
      WriteFile \<lparr>p_userSettings = [], p_subscribedUsers = [], p_lastSignature = Some ''S5''\<rparr> # rest \<and>
      fetched rest = [''S4'', ''S5''])"
proof -
  have h: "validPublicKey (quietEnv s543) (monitoredWallet (quietEnv s543)) \<and>
      ledger (quietEnv s543) = Some s543"
    by (simp add: quietEnv_def)
  have n: "findNewSignatures (lastSignature (atS3 :: unit monitor)) (take 10 s543) [] =
        [sig_of ''S5'', sig_of ''S4'']"
    "findNewSignatures (lastSignature (atS3 :: settings monitor)) (take 10 s543) [] =
        [sig_of ''S5'', sig_of ''S4'']"
    by (simp_all add: atS3_def initial_def s543_def sig_of_def)
  have u: "userData ((atS3 :: settings monitor)\<lparr>lastSignature := Some (signature (hd s543))\<rparr>) =
      \<lparr>p_userSettings = [], p_subscribedUsers = [], p_lastSignature = Some ''S5''\<rparr>"
    "signature (hd s543) = ''S5''" "lastSignature (atS3 :: unit monitor) = Some ''S3''"
    by (simp_all add: userData_def atS3_def initial_def s543_def sig_of_def)
  from cursor_after_processing [of atS3 "quietEnv s543" "sig_of ''S4''" s543 atS3] h n u
  show ?thesis
    by (simp add: sig_of_def)
qed

text \<open>
  C4, as stated, fails for the poll diff: with an absent cursor and the listing \<open>[S3, S2, S1]\<close>
  a cycle of \<open>index.js\<close> collects all three ids and looks them up.
\<close>

theorem absent_cursor_poll_counterexample:
  "lastSignature (initial :: settings monitor) = None \<and>
   fetched (since initial (pollCycle (quietEnv s321) initial)) = [''S1'', ''S2'', ''S3'']"
  by (simp add: cycle_eval notify_eval quietEnv_def sig_of_def s321_def)

lemma findNewSignatures_absent: "findNewSignatures None ids acc = acc @ ids"
  by (simp add: findNewSignatures_acc)

text \<open>
  C4, amended. The baseline is taken by \<open>startMonitoring\<close>: with a valid wallet and an absent
  cursor it sets the cursor to the newest listed id (absent again when the listing is empty), and
  its only effect is the write of that state: no lookup, no message. The poll diff has no
  absent-cursor case: with an absent cursor a cycle takes every listed id (at most 10) as new,
  looks them up oldest first and sets the cursor to the newest.
\<close>

theorem absent_cursor_baseline:
  "(monitoredWallet e \<noteq> [] \<and> isValidSolanaAddress e (monitoredWallet e) \<and>
    lastSignature st = None \<and> ledger e = Some ids \<longrightarrow>
      lastSignature (startMonitoring e st) =
        (case ids of [] \<Rightarrow> None | first # others \<Rightarrow> Some (signature first)) \<and>
      since st (startMonitoring e st) = [WriteFile (userData (startMonitoring e st))]) \<and>
   (validPublicKey e (monitoredWallet e) \<and> lastSignature st = None \<and> ledger e = Some ids \<longrightarrow>
      fetched (since st (pollCycle e st)) = map signature (rev (take 10 ids)) \<and>
      lastSignature (pollCycle e st) =
        (case ids of [] \<Rightarrow> None | first # others \<Rightarrow> Some (signature first)))"
proof (intro conjI impI)
  assume a: "monitoredWallet e \<noteq> [] \<and> isValidSolanaAddress e (monitoredWallet e) \<and>
    lastSignature st = None \<and> ledger e = Some ids"
  let ?c = "case ids of [] \<Rightarrow> None | first # others \<Rightarrow> Some (signature first)"
  have "(case take 1 ids of [] \<Rightarrow> None | first # others \<Rightarrow> Some (signature first)) = ?c"
    by (cases ids) simp_all
  with a have sm: "startMonitoring e st = saveUserData (st\<lparr>lastSignature := ?c\<rparr>)"
    by (simp add: startMonitoring_def getSignaturesForAddress_def)
  show "lastSignature (startMonitoring e st) = ?c"
    by (simp add: sm saveUserData_def emit_def)
  show "since st (startMonitoring e st) = [WriteFile (userData (startMonitoring e st))]"
    by (simp add: sm saveUserData_def emit_def since_def userData_def)
next
  assume a: "validPublicKey e (monitoredWallet e) \<and> lastSignature st = None \<and> ledger e = Some ids"
  show "fetched (since st (pollCycle e st)) = map signature (rev (take 10 ids))"
  proof (cases "take 10 ids = []")
    case True
    with a have "pollCycle e st = st"
      by (intro pollCycle_nothing) (simp add: findNewSignatures_absent)
    with True show ?thesis by simp
  next
    case False
    with a have "findNewSignatures (lastSignature st) (take 10 ids) [] \<noteq> []"
      by (simp add: findNewSignatures_absent)
    from pollCycle_found [OF _ _ this, of e] a show ?thesis
      by (auto simp: since_eq findNewSignatures_absent)
  qed
  show "lastSignature (pollCycle e st) =
        (case ids of [] \<Rightarrow> None | first # others \<Rightarrow> Some (signature first))"
  proof (cases ids)
    case Nil
    with a have "pollCycle e st = st"
      by (intro pollCycle_nothing) (simp add: findNewSignatures_absent)
    with a Nil show ?thesis by simp
  next
    case (Cons first others)
    with a have "findNewSignatures (lastSignature st) (take 10 ids) [] \<noteq> []"
      by (simp add: findNewSignatures_absent)
    from pollCycle_found [OF _ _ this, of e] a Cons show ?thesis
      by auto
  qed
qed

theorem absent_cursor_baseline_witness:
  "lastSignature (startMonitoring (quietEnv s321) (initial :: settings monitor)) = Some ''S3'' \<and>
   since initial (startMonitoring (quietEnv s321) (initial :: settings monitor)) =
     [WriteFile \<lparr>p_userSettings = [], p_subscribedUsers = [], p_lastSignature = Some ''S3''\<rparr>] \<and>
   fetched (since initial (pollCycle (quietEnv s321) initial)) = [''S1'', ''S2'', ''S3''] \<and>
   lastSignature (pollCycle (quietEnv s321) initial) = Some ''S3''"
proof -
  have h: "monitoredWallet (quietEnv s321) \<noteq> [] \<and>
      isValidSolanaAddress (quietEnv s321) (monitoredWallet (quietEnv s321)) \<and>
      validPublicKey (quietEnv s321) (monitoredWallet (quietEnv s321)) \<and>
      lastSignature (initial :: settings monitor) = None \<and> ledger (quietEnv s321) = Some s321"
    by (simp add: quietEnv_def isValidSolanaAddress_def wallet_def initial_def)
  have c: "(case s321 of [] \<Rightarrow> None | first # others \<Rightarrow> Some (signature first)) = Some ''S3''"
    "map signature (rev (take 10 s321)) = [''S1'', ''S2'', ''S3'']"
    by (simp_all add: s321_def sig_of_def)
  from absent_cursor_baseline [of "quietEnv s321" "initial :: settings monitor" s321] h c
  have r: "lastSignature (startMonitoring (quietEnv s321) (initial :: settings monitor)) = Some ''S3''"
    "since initial (startMonitoring (quietEnv s321) (initial :: settings monitor)) =
       [WriteFile (userData (startMonitoring (quietEnv s321) (initial :: settings monitor)))]"
    "fetched (since initial (pollCycle (quietEnv s321) initial)) = [''S1'', ''S2'', ''S3'']"
    "lastSignature (pollCycle (quietEnv s321) initial) = Some ''S3''"
    by simp_all
  have "userData (startMonitoring (quietEnv s321) (initial :: settings monitor)) =
      \<lparr>p_userSettings = [], p_subscribedUsers = [], p_lastSignature = Some ''S3''\<rparr>"
    using r(1)
    by (simp add: userData_def startMonitoring_def quietEnv_def isValidSolanaAddress_def wallet_def
        initial_def getSignaturesForAddress_def saveUserData_def emit_def s321_def)
  with r show ?thesis by simp
qed

section \<open>Commands\<close>

lemmas handler_eval = handleUpdates_def start_command_def unsubscribe_command_def
  set_min_amount_action_def min_amount_listener_def hears_number_def hears_address_def
  hears_remove_def

text \<open>
  Every step keeps the settings keys within the subscribers, except a number sent by a chat
  that is not subscribed; \<open>unsubscribe\<close> removes the subscriber and its settings together.
\<close>

lemma within_iff:
  "settingsWithinSubscribers st = (fst ` set (userSettings st) \<subseteq> set (subscribedUsers st))"
  by (simp add: settingsWithinSubscribers_def)

lemma saveUserData_fields:
  "userSettings (saveUserData st) = userSettings st"
  "subscribedUsers (saveUserData st) = subscribedUsers st"
  "lastSignature (saveUserData st) = lastSignature st"
  "hearsListeners (saveUserData st) = hearsListeners st"
  by (simp_all add: saveUserData_def emit_def)

lemma within_deliver:
  "settingsWithinSubscribers st \<Longrightarrow> settingsWithinSubscribers (deliver e t sg c st)"
  by (auto simp: within_iff deliver_simps delete_keys simp flip: set_map)

lemma within_notifyAllUsers:
  "settingsWithinSubscribers st \<Longrightarrow> settingsWithinSubscribers (notifyAllUsers e t sg st)"
proof -
  have "settingsWithinSubscribers s \<Longrightarrow> settingsWithinSubscribers (fold (notifyUser e t sg) cs s)"
    for cs s
    by (induction cs arbitrary: s) (simp_all add: notifyUser_eq within_deliver)
  then show "settingsWithinSubscribers st \<Longrightarrow> settingsWithinSubscribers (notifyAllUsers e t sg st)"
    by (simp add: notifyAllUsers_def)
qed

lemma within_start:
  "settingsWithinSubscribers st \<Longrightarrow> settingsWithinSubscribers (start_command c st)"
  by (auto simp: start_command_def within_iff set_add_def saveUserData_fields)

lemma within_unsubscribe:
  "settingsWithinSubscribers st \<Longrightarrow> settingsWithinSubscribers (unsubscribe_command c st)"
  by (auto simp: unsubscribe_command_def within_iff set_delete_def delete_keys saveUserData_fields
      simp flip: set_map)

lemma unsubscribe_removes_both:
  "c \<notin> set (subscribedUsers (unsubscribe_command c st)) \<and>
   map_of (userSettings (unsubscribe_command c st)) c = None"
  by (simp add: unsubscribe_command_def saveUserData_def emit_def set_delete_def delete_conv)

lemma within_action:
  "settingsWithinSubscribers st \<Longrightarrow> settingsWithinSubscribers (set_min_amount_action c st)"
  by (simp add: set_min_amount_action_def within_iff)

lemma within_address:
  "settingsWithinSubscribers st \<Longrightarrow> settingsWithinSubscribers (hears_address e c a st)"
  by (auto simp: hears_address_def within_iff dom_update Let_def saveUserData_fields)

lemma within_remove:
  "settingsWithinSubscribers st \<Longrightarrow> settingsWithinSubscribers (hears_remove c n st)"
  by (auto simp: hears_remove_def within_iff dom_update Let_def saveUserData_fields)

lemma within_number:
  "settingsWithinSubscribers st \<Longrightarrow> c \<in> set (subscribedUsers st) \<Longrightarrow>
   settingsWithinSubscribers (hears_number c x st)"
  by (auto simp: hears_number_def min_amount_listener_def within_iff dom_update Let_def
      saveUserData_fields split: list.splits)

lemma within_handleUpdate:
  assumes "settingsWithinSubscribers st"
    and "\<And>c x. u = NumberText c x \<Longrightarrow> c \<in> set (subscribedUsers st)"
  shows "settingsWithinSubscribers (handleUpdate e u st)"
  using assms
  by (cases u)
     (simp_all add: within_start within_unsubscribe within_action within_number within_address
        within_remove within_notifyAllUsers)

text \<open>The subscriber list of a reachable state has no duplicates.\<close>

lemma distinct_handleUpdate:
  assumes "distinct (subscribedUsers st)"
  shows "distinct (subscribedUsers (handleUpdate e u st))"
proof (cases u)
  case (Dispatch t sg)
  with assms show ?thesis
    by (simp add: notifyAllUsers_def fold_notifyUser_subscribedUsers)
qed (use assms in \<open>auto simp: start_command_def unsubscribe_command_def set_min_amount_action_def
      hears_number_def min_amount_listener_def hears_address_def hears_remove_def
      saveUserData_fields set_add_def set_delete_def distinct_removeAll Let_def
      split: list.splits\<close>)

lemma distinct_handleUpdates:
  "distinct (subscribedUsers st) \<Longrightarrow> distinct (subscribedUsers (handleUpdates e us st))"
  unfolding handleUpdates_def
  by (induction us arbitrary: st) (simp_all add: distinct_handleUpdate)

lemma distinct_reachable: "distinct (subscribedUsers (handleUpdates e us initial))"
  by (rule distinct_handleUpdates) (simp add: initial_def)

text \<open>
  C9. \<open>index.js\<close> on \<open>afterUnsubscribe\<close>: chat 1 subscribes, presses the minimum-amount
  button, unsubscribes and sends \<open>0.5\<close>. The listener stores settings for chat 1, which is no
  longer a subscriber. The blacklist listeners return early for a chat that is not subscribed;
  the minimum-amount listener has no such test.
\<close>

theorem settings_outlive_subscription:
  "userSettings (handleUpdates (quietEnv []) afterUnsubscribe initial) =
     [(1, \<lparr>blacklist = [], minAmount = 1 / 2\<rparr>)] \<and>
   subscribedUsers (handleUpdates (quietEnv []) afterUnsubscribe initial) = [] \<and>
   \<not> settingsWithinSubscribers (handleUpdates (quietEnv []) afterUnsubscribe initial)"
  by (simp add: handler_eval notify_eval afterUnsubscribe_def settingsWithinSubscribers_def)

end
